theory Spec2Isabelle
  imports Main "HOL-Library.Word" "HOL-Library.Multiset"
begin

section \<open>Data model of block-tester.go\<close>

text \<open>
  \<^verbatim>\<open>time.Duration\<close> is a count of nanoseconds. The program only stores durations, it does
  no arithmetic on them, so they are integers here.
\<close>

type_synonym duration = int

definition second :: duration where
  "second = 1000000000"

text \<open>\<^verbatim>\<open>type basicResult struct\<close> (block-tester.go, lines 43-49).\<close>

record basicResult =
  LookupTook :: duration
  HTTPConnectionTook :: duration
  Error :: string
  Page :: string
  IP :: string

text \<open>
  \<^verbatim>\<open>type result struct\<close> (lines 51-56). \<^verbatim>\<open>Tor\<close> and \<^verbatim>\<open>Plain\<close> are pointers: \<open>None\<close> is
  the nil pointer.
\<close>

record result =
  Name :: string
  Tor :: "basicResult option"
  Plain :: "basicResult option"

text \<open>A panic of the Go runtime, with its message.\<close>

datatype panic = Panic string

section \<open>The outside world of one probe\<close>

text \<open>
  A resource record of \<^verbatim>\<open>resp.Answer\<close>. The program only asks whether a record is a
  \<^verbatim>\<open>*dns.A\<close> and, if so, for \<^verbatim>\<open>a.A.String()\<close>: \<open>RR_A s\<close> is an A record whose address
  prints as \<open>s\<close>, \<open>RR_Other\<close> is a record of any other type.
\<close>

datatype rr = RR_A string | RR_Other

text \<open>
  What the network answers to one call of \<^verbatim>\<open>processName\<close> through a given resolver and
  HTTP client:
  \<^item> \<open>exchange name\<close>: \<^verbatim>\<open>resolver.Exchange(msg, t.publicDNS)\<close> for the A question of
    \<open>name\<close>: \<open>Inl\<close> the text of the error, \<open>Inr\<close> the answer section;
  \<^item> \<open>lookup_took\<close>: \<^verbatim>\<open>time.Since(s)\<close> after the exchange;
  \<^item> \<open>new_request url\<close>: the error of \<^verbatim>\<open>http.NewRequest("GET", url, nil)\<close>, if any;
  \<^item> \<open>client_do url host\<close>: \<^verbatim>\<open>client.Do(req)\<close>: \<open>Inl\<close> the text of the error, \<open>Inr\<close> what
    \<^verbatim>\<open>ioutil.ReadAll(httpResp.Body)\<close> would return on that response (the bytes read and
    the read error, if any);
  \<^item> \<open>http_took\<close>: \<^verbatim>\<open>time.Since(s)\<close> after \<^verbatim>\<open>client.Do\<close>.
\<close>

record path_env =
  exchange :: "string \<Rightarrow> string + rr list"
  lookup_took :: duration
  new_request :: "string \<Rightarrow> string option"
  client_do :: "string \<Rightarrow> string \<Rightarrow> string + (string \<times> string option)"
  http_took :: duration

text \<open>The calls a probe makes to the outside, in the order it makes them.\<close>

datatype step =
    Exchange string
  | NewRequest string
  | Do string string
  | ReadAll
  | CloseBody

section \<open>The proxy identity: randomString and newDialer\<close>

type_synonym byte = "8 word"

text \<open>
  \<^verbatim>\<open>fmt.Sprintf("%X", b)\<close> on a byte slice: two upper-case hexadecimal digits per byte,
  nothing between them.
\<close>

definition hexdigit :: "nat \<Rightarrow> char" where
  "hexdigit n = ''0123456789ABCDEF'' ! (n mod 16)"

definition hexbyte :: "byte \<Rightarrow> string" where
  "hexbyte b = [hexdigit (unat b div 16), hexdigit (unat b mod 16)]"

definition sprintfX :: "byte list \<Rightarrow> string" where
  "sprintfX bs = concat (map hexbyte bs)"

text \<open>
  \<^verbatim>\<open>b := make([]byte, 16); rand.Read(b)\<close>: the buffer has 16 zero bytes, and the read
  overwrites its first bytes with what the source delivers.
\<close>

definition fill16 :: "byte list \<Rightarrow> byte list" where
  "fill16 bs = take 16 bs @ replicate (16 - length bs) 0"

text \<open>
  A SOCKS5 dialer as \<^verbatim>\<open>proxy.SOCKS5(network, addr, auth, forward)\<close> builds it; of the
  forwarding \<^verbatim>\<open>net.Dialer\<close> only the timeout is set.
\<close>

record dialer =
  network :: string
  addr :: string
  user :: string
  password :: string
  forward_timeout :: duration

text \<open>
  The outside world of one call of \<^verbatim>\<open>process\<close>:
  \<^item> \<open>rand_read\<close>: what \<^verbatim>\<open>rand.Read(b)\<close> does: \<open>Inl\<close> the text of its error, \<open>Inr\<close> the bytes;
  \<^item> \<open>socks5_err\<close>: the error of \<^verbatim>\<open>proxy.SOCKS5\<close>, if any;
  \<^item> \<open>plain_net\<close>: the network through the shared resolver and client of the tester;
  \<^item> \<open>tor_net d\<close>: the network through a resolver and a client that dial with \<open>d\<close>.
\<close>

record world =
  rand_read :: "string + byte list"
  socks5_err :: "string option"
  plain_net :: path_env
  tor_net :: "dialer \<Rightarrow> path_env"

text \<open>\<^verbatim>\<open>func randomString() string\<close> (lines 20-27).\<close>

definition randomString :: "world \<Rightarrow> panic + string" where
  "randomString w =
     (case rand_read w of
        Inl err \<Rightarrow> Inl (Panic err)
      | Inr bs \<Rightarrow> Inr (sprintfX (fill16 bs)))"

text \<open>\<^verbatim>\<open>func newDialer() proxy.Dialer\<close> (lines 29-41).\<close>

definition newDialer :: "world \<Rightarrow> panic + dialer" where
  "newDialer w =
     (case randomString w of
        Inl p \<Rightarrow> Inl p
      | Inr randStr \<Rightarrow>
          (case socks5_err w of
             Some err \<Rightarrow> Inl (Panic err)
           | None \<Rightarrow>
               Inr \<lparr>network = ''tcp'', addr = ''127.0.0.1:9150'',
                    user = randStr, password = randStr,
                    forward_timeout = 10 * second\<rparr>))"

section \<open>The probe: processName\<close>

text \<open>
  The loop of lines 83-88: \<^verbatim>\<open>r.IP\<close> starts empty, and the first \<^verbatim>\<open>*dns.A\<close> of the answer
  section sets it and leaves the loop.
\<close>

fun firstA :: "rr list \<Rightarrow> string" where
  "firstA [] = []"
| "firstA (RR_A s # rest) = s"
| "firstA (RR_Other # rest) = firstA rest"

text \<open>
  Lines 68-92, the resolution step. \<open>Inl r\<close>: the function returns \<open>r\<close> here;
  \<open>Inr r\<close>: it goes on to the fetch with \<open>r\<close>. The text of the last error is the one literal
  in which the two source files differ, so it is a parameter here.
\<close>

definition lookupStep :: "string \<Rightarrow> path_env \<Rightarrow> string \<Rightarrow> basicResult + basicResult" where
  "lookupStep malformed env name =
     (let r = \<lparr>LookupTook = 0, HTTPConnectionTook = 0, Error = [], Page = [], IP = []\<rparr>;
          r = r\<lparr>LookupTook := lookup_took env\<rparr>
      in case exchange env name of
           Inl err \<Rightarrow> Inl (r\<lparr>Error := err\<rparr>)
         | Inr answer \<Rightarrow>
             if length answer = 0 then Inl (r\<lparr>Error := ''No addresses found''\<rparr>)
             else
               let r = r\<lparr>IP := firstA answer\<rparr>
               in if IP r = [] then Inl (r\<lparr>Error := malformed\<rparr>) else Inr r)"

text \<open>
  Lines 93-114, the fetch and the body read, from the outcome \<open>r\<close> of a successful
  resolution. The second component lists the calls made.
\<close>

definition fetchStep :: "path_env \<Rightarrow> string \<Rightarrow> bool \<Rightarrow> basicResult \<Rightarrow> basicResult \<times> step list" where
  "fetchStep env name grabPage r =
     (let url = ''http://'' @ IP r @ ''/''
      in case new_request env url of
           Some err \<Rightarrow> (r\<lparr>Error := err\<rparr>, [NewRequest url])
         | None \<Rightarrow>
             let r = r\<lparr>HTTPConnectionTook := http_took env\<rparr>
             in case client_do env url name of
                  Inl err \<Rightarrow> (r\<lparr>Error := err\<rparr>, [NewRequest url, Do url name])
                | Inr (body, rerr) \<Rightarrow>
                    if grabPage then
                      let r = (case rerr of Some err \<Rightarrow> r\<lparr>Error := err\<rparr> | None \<Rightarrow> r)
                      in (r\<lparr>Page := body\<rparr>, [NewRequest url, Do url name, ReadAll, CloseBody])
                    else (r, [NewRequest url, Do url name, CloseBody]))"

text \<open>
  \<^verbatim>\<open>func (t *tester) processName(wg, name, client, resolver, grabPage)\<close>, with the
  resolver and the client given as the network they reach. The deferred \<^verbatim>\<open>wg.Done()\<close>
  belongs to the coordinator's model below.
\<close>

definition processNameWith :: "string \<Rightarrow> path_env \<Rightarrow> string \<Rightarrow> bool \<Rightarrow> basicResult \<times> step list" where
  "processNameWith malformed env name grabPage =
     (case lookupStep malformed env name of
        Inl r \<Rightarrow> (r, [Exchange name])
      | Inr r \<Rightarrow> (case fetchStep env name grabPage r of (r', tr) \<Rightarrow> (r', Exchange name # tr)))"

text \<open>block-tester.go, line 90.\<close>

definition processName :: "path_env \<Rightarrow> string \<Rightarrow> bool \<Rightarrow> basicResult \<times> step list" where
  "processName = processNameWith ''Malformed DNS response''"

text \<open>The other source file (src/unnamed/part_000, line 69).\<close>

definition processName0 :: "path_env \<Rightarrow> string \<Rightarrow> bool \<Rightarrow> basicResult \<times> step list" where
  "processName0 = processNameWith ''Malformed A records''"

section \<open>The per-name coordinator: process\<close>

text \<open>
  \<^verbatim>\<open>process\<close> (lines 117-143) runs three goroutines: the coordinator itself and the two
  closures \<^verbatim>\<open>go func() { r.Plain = t.processName(wg, ...) }()\<close> and
  \<^verbatim>\<open>go func() { r.Tor = t.processName(wg, ...) }()\<close>. A closure is
  \<^item> \<open>NotStarted\<close> before its \<^verbatim>\<open>go\<close> statement,
  \<^item> \<open>Started env grabPage\<close> once it exists, holding the resolver and client (as the network
    \<open>env\<close> they reach) and the flag its call of \<^verbatim>\<open>processName\<close> passes,
  \<^item> \<open>Returned v\<close> when \<^verbatim>\<open>processName\<close> has returned \<open>v\<close>: its deferred \<^verbatim>\<open>wg.Done()\<close>
    (line 67) has run, the assignment of \<open>v\<close> to the field of \<^verbatim>\<open>r\<close> has not,
  \<^item> \<open>Stored\<close> after the assignment.
\<close>

datatype gstate = NotStarted | Started path_env bool | Returned basicResult | Stored

datatype tid = Coordinator | PlainProbe | TorProbe

text \<open>
  How a call of \<^verbatim>\<open>process\<close> ends: the program panics, or the coordinator reaches line 142
  with the value of \<^verbatim>\<open>r\<close> it sends and the line it has printed. \<open>Deadlocked\<close>: no goroutine
  can move.
\<close>

datatype outcome = Panicked panic | Emitted result string | Deadlocked

text \<open>
  The shared state: the coordinator's position \<open>pc\<close>, the counter of the WaitGroup, the
  variable \<^verbatim>\<open>r\<close>, the line printed, and the two closures.
\<close>

record pstate =
  pc :: nat
  wg :: nat
  res :: result
  printed :: string
  plain_g :: gstate
  tor_g :: gstate

text \<open>\<^verbatim>\<open>wg.Done()\<close>: a counter below zero panics.\<close>

definition wgDone :: "pstate \<Rightarrow> outcome + pstate" where
  "wgDone s =
     (if wg s = 0 then Inl (Panicked (Panic ''sync: negative WaitGroup counter''))
      else Inr (s\<lparr>wg := wg s - 1\<rparr>))"

text \<open>The next state of a closure.\<close>

definition gstep :: "string \<Rightarrow> gstate \<Rightarrow> gstate" where
  "gstep name g =
     (case g of
        Started env grabPage \<Rightarrow> Returned (fst (processName env name grabPage))
      | Returned v \<Rightarrow> Stored
      | _ \<Rightarrow> g)"

text \<open>
  One step of the coordinator, by its position:
  \<^item> 0: lines 118-121, \<^verbatim>\<open>wg.Add(2)\<close>, \<^verbatim>\<open>r := result{Name: name}\<close>, and the first \<^verbatim>\<open>go\<close>;
  \<^item> 1: lines 123-134, \<^verbatim>\<open>newDialer()\<close>, the resolver and client built on it, the second \<^verbatim>\<open>go\<close>;
  \<^item> 2: line 136, \<^verbatim>\<open>wg.Wait()\<close> (it can move only when the counter is zero);
  \<^item> 3: lines 137-141, the read of \<^verbatim>\<open>r.Tor.Error\<close> and the line printed;
  \<^item> 4: line 142, \<^verbatim>\<open>t.results <- r\<close>.
\<close>

definition coordinator :: "world \<Rightarrow> string \<Rightarrow> pstate \<Rightarrow> outcome + pstate" where
  "coordinator w name s =
     (if pc s = 0 then
        Inr (s\<lparr>pc := 1, wg := wg s + 2,
               res := \<lparr>Name = name, Tor = None, Plain = None\<rparr>,
               plain_g := Started (plain_net w) False\<rparr>)
      else if pc s = 1 then
        (case newDialer w of
           Inl p \<Rightarrow> Inl (Panicked p)
         | Inr proxyDialer \<Rightarrow>
             Inr (s\<lparr>pc := 2, tor_g := Started (tor_net w proxyDialer) True\<rparr>))
      else if pc s = 2 then Inr (s\<lparr>pc := 3\<rparr>)
      else if pc s = 3 then
        (case Tor (res s) of
           None \<Rightarrow> Inl (Panicked (Panic ''invalid memory address or nil pointer dereference''))
         | Some tor \<Rightarrow>
             Inr (s\<lparr>pc := 4,
                    printed := (if Error tor \<noteq> [] then '':( '' @ Error tor else '':)'')\<rparr>))
      else Inl (Emitted (res s) (printed s)))"

text \<open>
  One step of a closure: the call of \<^verbatim>\<open>processName\<close> up to its return (with the deferred
  \<^verbatim>\<open>wg.Done()\<close>), or the assignment of the value returned.
\<close>

definition plainProbe :: "string \<Rightarrow> pstate \<Rightarrow> outcome + pstate" where
  "plainProbe name s =
     (case plain_g s of
        Started env grabPage \<Rightarrow> wgDone (s\<lparr>plain_g := gstep name (plain_g s)\<rparr>)
      | Returned v \<Rightarrow>
          Inr (s\<lparr>res := (res s)\<lparr>Plain := Some v\<rparr>, plain_g := gstep name (plain_g s)\<rparr>)
      | _ \<Rightarrow> Inr s)"

definition torProbe :: "string \<Rightarrow> pstate \<Rightarrow> outcome + pstate" where
  "torProbe name s =
     (case tor_g s of
        Started env grabPage \<Rightarrow> wgDone (s\<lparr>tor_g := gstep name (tor_g s)\<rparr>)
      | Returned v \<Rightarrow>
          Inr (s\<lparr>res := (res s)\<lparr>Tor := Some v\<rparr>, tor_g := gstep name (tor_g s)\<rparr>)
      | _ \<Rightarrow> Inr s)"

fun pstep :: "world \<Rightarrow> string \<Rightarrow> tid \<Rightarrow> pstate \<Rightarrow> outcome + pstate" where
  "pstep w name Coordinator s = coordinator w name s"
| "pstep w name PlainProbe s = plainProbe name s"
| "pstep w name TorProbe s = torProbe name s"

text \<open>Which goroutines can move.\<close>

fun runnable :: "gstate \<Rightarrow> bool" where
  "runnable (Started env grabPage) = True"
| "runnable (Returned v) = True"
| "runnable g = False"

fun penabled :: "pstate \<Rightarrow> tid \<Rightarrow> bool" where
  "penabled s Coordinator = (pc s < 5 \<and> (pc s = 2 \<longrightarrow> wg s = 0))"
| "penabled s PlainProbe = runnable (plain_g s)"
| "penabled s TorProbe = runnable (tor_g s)"

text \<open>
  The scheduler: a list of choices, each taken modulo the number of goroutines that can
  move; an exhausted list chooses the first.
\<close>

fun pick :: "nat list \<Rightarrow> nat" where
  "pick [] = 0"
| "pick (c # cs) = c"

definition scheduled :: "nat list \<Rightarrow> 'a list \<Rightarrow> 'a option" where
  "scheduled sched en = (if en = [] then None else Some (en ! (pick sched mod length en)))"

text \<open>
  The goroutines of one call of \<^verbatim>\<open>process\<close>, interleaved by the scheduler. That every call
  ends is proved in the section on termination.
\<close>

function process_from :: "world \<Rightarrow> string \<Rightarrow> nat list \<Rightarrow> pstate \<Rightarrow> outcome" where
  "process_from w name sched s =
     (case scheduled sched (filter (penabled s) [Coordinator, PlainProbe, TorProbe]) of
        None \<Rightarrow> Deadlocked
      | Some t \<Rightarrow>
          (case pstep w name t s of
             Inl out \<Rightarrow> out
           | Inr s' \<Rightarrow> process_from w name (tl sched) s'))"
  by pat_completeness auto

text \<open>The state in which \<^verbatim>\<open>process\<close> is entered.\<close>

definition pstate0 :: pstate where
  "pstate0 =
     \<lparr>pc = 0, wg = 0, res = \<lparr>Name = [], Tor = None, Plain = None\<rparr>, printed = [],
      plain_g = NotStarted, tor_g = NotStarted\<rparr>"

text \<open>\<^verbatim>\<open>func (t *tester) process(name string)\<close> (lines 117-143), under a scheduler.\<close>

definition process :: "world \<Rightarrow> string \<Rightarrow> nat list \<Rightarrow> outcome" where
  "process w name sched = process_from w name sched pstate0"

section \<open>The coordinator of src/unnamed/part_000\<close>

text \<open>
  In the other source file \<^verbatim>\<open>main\<close> builds the proxy dialer once (lines 145-159):
  \<^verbatim>\<open>url.Parse(*proxyURI)\<close>, then \<^verbatim>\<open>proxy.FromURL(u, &net.Dialer{})\<close>, and gives it to the one
  \<^verbatim>\<open>t.torResolver\<close> and the one \<^verbatim>\<open>t.torClient\<close> that every call of \<^verbatim>\<open>process\<close> uses. Of a parsed
  URL the program's dialer needs the scheme, the user and password (if the URL has them)
  and the host.
\<close>

record url =
  scheme :: string
  userinfo :: "(string \<times> string) option"
  host :: string










section \<open>Channels\<close>

text \<open>
  A buffered Go channel: the values waiting in it, its capacity, and whether it has been
  closed.
\<close>

record 'a chan =
  buf :: "'a list"
  cap :: nat
  closed :: bool

text \<open>A channel operation that does not complete: it blocks, or it panics.\<close>

datatype chan_fault = Blocked | ChanPanic panic

text \<open>\<^verbatim>\<open>make(chan T, n)\<close>.\<close>

definition make_chan :: "nat \<Rightarrow> 'a chan" where
  "make_chan n = \<lparr>buf = [], cap = n, closed = False\<rparr>"

text \<open>
  \<^verbatim>\<open>c <- v\<close> with no receiver waiting: a send on a closed channel panics, a send on a full
  buffer blocks.
\<close>

definition chan_send :: "'a chan \<Rightarrow> 'a \<Rightarrow> chan_fault + 'a chan" where
  "chan_send c v =
     (if closed c then Inl (ChanPanic (Panic ''send on closed channel''))
      else if length (buf c) < cap c then Inr (c\<lparr>buf := buf c @ [v]\<rparr>)
      else Inl Blocked)"

text \<open>\<^verbatim>\<open>close(c)\<close>.\<close>

definition chan_close :: "'a chan \<Rightarrow> chan_fault + 'a chan" where
  "chan_close c =
     (if closed c then Inl (ChanPanic (Panic ''close of closed channel''))
      else Inr (c\<lparr>closed := True\<rparr>))"

text \<open>
  One round of \<^verbatim>\<open>for v := range c\<close>: the next value; or the loop ends, when the channel is
  closed and empty; or the receive blocks, when it is empty and not closed.
\<close>

datatype 'a received = Received 'a "'a chan" | Drained | RecvBlocked

definition chan_recv :: "'a chan \<Rightarrow> 'a received" where
  "chan_recv c =
     (case buf c of
        v # rest \<Rightarrow> Received v (c\<lparr>buf := rest\<rparr>)
      | [] \<Rightarrow> if closed c then Drained else RecvBlocked)"

section \<open>The worker pool: run\<close>

text \<open>
  A worker of \<^verbatim>\<open>run\<close> (lines 149-154) is
  \<^item> \<open>Idle\<close> at the head of \<^verbatim>\<open>for name := range t.names\<close>,
  \<^item> \<open>Busy k name\<close> inside \<^verbatim>\<open>t.process(name)\<close>, for the \<open>k\<close>-th name taken from the queue,
  \<^item> \<open>Sending r\<close> at \<^verbatim>\<open>t.results <- r\<close>, the last statement of \<^verbatim>\<open>process\<close>,
  \<^item> \<open>Hung\<close> when its call of \<^verbatim>\<open>process\<close> can never move again,
  \<^item> \<open>Exited\<close> after its deferred \<^verbatim>\<open>wg.Done()\<close>.
\<close>

datatype wstate = Idle | Busy nat string | Sending result | Hung | Exited

text \<open>
  The tester's two channels, the workers, and the number of names taken so far.
\<close>

record pool =
  names :: "string chan"
  results :: "result chan"
  workers :: "wstate list"
  taken :: nat

text \<open>
  One step of worker \<open>i\<close>. \<open>proc k name\<close> is how the call of \<^verbatim>\<open>process\<close> for the \<open>k\<close>-th name
  taken ends.
\<close>

definition wstep :: "(nat \<Rightarrow> string \<Rightarrow> outcome) \<Rightarrow> nat \<Rightarrow> pool \<Rightarrow> panic + pool" where
  "wstep proc i s =
     (case workers s ! i of
        Idle \<Rightarrow>
          (case chan_recv (names s) of
             Received name c \<Rightarrow>
               Inr (s\<lparr>names := c, workers := (workers s)[i := Busy (taken s) name],
                      taken := taken s + 1\<rparr>)
           | Drained \<Rightarrow> Inr (s\<lparr>workers := (workers s)[i := Exited]\<rparr>)
           | RecvBlocked \<Rightarrow> Inr s)
      | Busy k name \<Rightarrow>
          (case proc k name of
             Panicked p \<Rightarrow> Inl p
           | Emitted r line \<Rightarrow> Inr (s\<lparr>workers := (workers s)[i := Sending r]\<rparr>)
           | Deadlocked \<Rightarrow> Inr (s\<lparr>workers := (workers s)[i := Hung]\<rparr>))
      | Sending r \<Rightarrow>
          (case chan_send (results s) r of
             Inl (ChanPanic p) \<Rightarrow> Inl p
           | Inl Blocked \<Rightarrow> Inr s
           | Inr c \<Rightarrow> Inr (s\<lparr>results := c, workers := (workers s)[i := Idle]\<rparr>))
      | Hung \<Rightarrow> Inr s
      | Exited \<Rightarrow> Inr s)"

text \<open>Which workers can move.\<close>

definition wenabled :: "pool \<Rightarrow> nat \<Rightarrow> bool" where
  "wenabled s i =
     (case workers s ! i of
        Idle \<Rightarrow> chan_recv (names s) \<noteq> RecvBlocked
      | Busy k name \<Rightarrow> True
      | Sending r \<Rightarrow> chan_send (results s) r \<noteq> Inl Blocked
      | Hung \<Rightarrow> False
      | Exited \<Rightarrow> False)"

text \<open>
  How \<^verbatim>\<open>run\<close> ends: a worker panics; \<^verbatim>\<open>wg.Wait()\<close> returns, every worker having exited; or
  no worker can move while one has not exited.
\<close>

datatype run_outcome = RunPanicked panic | RunReturned pool | RunDeadlocked pool

text \<open>
  The workers, interleaved by the scheduler, until none can move. That they come to rest
  is proved in the section on termination.
\<close>

function run_loop :: "(nat \<Rightarrow> string \<Rightarrow> outcome) \<Rightarrow> nat list \<Rightarrow> pool \<Rightarrow> run_outcome" where
  "run_loop proc sched s =
     (case scheduled sched (filter (wenabled s) [0..<length (workers s)]) of
        None \<Rightarrow> if list_all (\<lambda>w. w = Exited) (workers s) then RunReturned s else RunDeadlocked s
      | Some i \<Rightarrow>
          (case wstep proc i s of
             Inl p \<Rightarrow> RunPanicked p
           | Inr s' \<Rightarrow> run_loop proc (tl sched) s'))"
  by pat_completeness auto

text \<open>
  \<^verbatim>\<open>func (t *tester) run(workers int)\<close> (lines 145-157): the loop starts no worker when
  \<^verbatim>\<open>workers\<close> is not positive.
\<close>

definition run :: "(nat \<Rightarrow> string \<Rightarrow> outcome) \<Rightarrow> nat list \<Rightarrow> int \<Rightarrow> pool \<Rightarrow> run_outcome" where
  "run proc sched n s = run_loop proc sched (s\<lparr>workers := replicate (nat n) Idle\<rparr>)"

section \<open>The program: main\<close>

text \<open>
  \<^verbatim>\<open>strings.Split(s, "\n")\<close>: the substrings between the newlines, scanned from the left;
  \<open>cur\<close> is the piece read since the last newline.
\<close>

fun scanNL :: "string \<Rightarrow> string \<Rightarrow> string list" where
  "scanNL cur [] = [cur]"
| "scanNL cur (c # cs) =
     (if c = CHR 0x0A then cur # scanNL [] cs else scanNL (cur @ [c]) cs)"

definition Split :: "string \<Rightarrow> string list" where
  "Split s = scanNL [] s"

text \<open>Lines 184-186: \<^verbatim>\<open>for _, n := range splitNames { t.names <- n }\<close>.\<close>

fun send_all :: "'a chan \<Rightarrow> 'a list \<Rightarrow> chan_fault + 'a chan" where
  "send_all c [] = Inr c"
| "send_all c (v # vs) =
     (case chan_send c v of Inl f \<Rightarrow> Inl f | Inr c' \<Rightarrow> send_all c' vs)"

text \<open>
  Lines 191-194: \<^verbatim>\<open>for r := range t.results { results = append(results, r) }\<close>, run when
  every worker has exited, so nothing is sent any more. \<open>Inr\<close>: the loop ends with these
  results; \<open>Inl\<close>: the receive blocks for ever, these results read so far.
\<close>

function collect :: "'a chan \<Rightarrow> 'a list \<Rightarrow> 'a list + 'a list" where
  "collect c acc =
     (case chan_recv c of
        Received r c' \<Rightarrow> collect c' (acc @ [r])
      | Drained \<Rightarrow> Inr acc
      | RecvBlocked \<Rightarrow> Inl acc)"
  by pat_completeness auto
termination
  by (relation "measure (\<lambda>(c, acc). length (buf c))")
     (auto simp: chan_recv_def split: list.splits if_splits)

text \<open>
  How \<^verbatim>\<open>main\<close> ends: the names file cannot be read; the program panics; the main goroutine
  blocks for ever on a channel (with the results it has read so far); or it reaches
  \<^verbatim>\<open>json.Marshal(results)\<close> (line 195) with these results.
\<close>

datatype main_outcome =
    ReadFailed string
  | MainPanicked panic
  | MainBlocked "result list"
  | Collected "result list"

text \<open>Lines 181-187, the names channel: split, make, fill, close.\<close>

definition load_names :: "string \<Rightarrow> chan_fault + string chan" where
  "load_names content =
     (let splitNames = Split content
      in case send_all (make_chan (length splitNames)) splitNames of
           Inl f \<Rightarrow> Inl f
         | Inr c \<Rightarrow> chan_close c)"

text \<open>
  \<^verbatim>\<open>func main()\<close> (lines 159-207), from the result of \<^verbatim>\<open>ioutil.ReadFile(*namesFile)\<close> and
  the \<^verbatim>\<open>workers\<close> flag. The \<open>k\<close>-th call of \<^verbatim>\<open>process\<close> meets the world \<open>worlds k\<close> and the
  scheduler \<open>scheds k\<close>; \<open>sched\<close> schedules the workers.
\<close>

definition main ::
  "string + string \<Rightarrow> int \<Rightarrow> (nat \<Rightarrow> world) \<Rightarrow> (nat \<Rightarrow> nat list) \<Rightarrow> nat list \<Rightarrow> main_outcome" where
  "main file workers_flag worlds scheds sched =
     (case file of
        Inl err \<Rightarrow> ReadFailed err
      | Inr content \<Rightarrow>
          (case load_names content of
             Inl Blocked \<Rightarrow> MainBlocked []
           | Inl (ChanPanic p) \<Rightarrow> MainPanicked p
           | Inr c \<Rightarrow>
               (case run (\<lambda>k name. process (worlds k) name (scheds k)) sched workers_flag
                       \<lparr>names = c, results = make_chan (length (Split content)),
                        workers = [], taken = 0\<rparr> of
                  RunPanicked p \<Rightarrow> MainPanicked p
                | RunDeadlocked s \<Rightarrow> MainBlocked []
                | RunReturned s \<Rightarrow>
                    (case collect (results s) [] of
                       Inl acc \<Rightarrow> MainBlocked acc
                     | Inr acc \<Rightarrow> Collected acc))))"

section \<open>Measures of progress\<close>

text \<open>
  Every step of a goroutine of \<^verbatim>\<open>process\<close> uses up some of this weight, so a call of
  \<^verbatim>\<open>process\<close> ends under every scheduler.
\<close>

fun gweight :: "gstate \<Rightarrow> nat" where
  "gweight NotStarted = 2"
| "gweight (Started env grabPage) = 2"
| "gweight (Returned v) = 1"
| "gweight Stored = 0"

definition pweight :: "pstate \<Rightarrow> nat" where
  "pweight s = 3 * (5 - pc s) + gweight (plain_g s) + gweight (tor_g s)"

text \<open>
  Every step of a worker uses up some of this weight, so the workers of \<^verbatim>\<open>run\<close> come to rest
  under every scheduler.
\<close>

fun wweight :: "wstate \<Rightarrow> nat" where
  "wweight Idle = 1"
| "wweight (Busy k name) = 3"
| "wweight (Sending r) = 2"
| "wweight Hung = 0"
| "wweight Exited = 0"

definition poolweight :: "pool \<Rightarrow> nat" where
  "poolweight s = 4 * length (buf (names s)) + sum_list (map wweight (workers s))"

section \<open>Predicates of the statements and of the proofs\<close>

text \<open>
  The texts of the errors the outside reports are not empty: the program tells a failed
  probe from a successful one by \<^verbatim>\<open>r.Error != ""\<close>.
\<close>

definition errors_have_text :: "path_env \<Rightarrow> bool" where
  "errors_have_text env \<longleftrightarrow>
     (\<forall>name. exchange env name \<noteq> Inl [])
     \<and> (\<forall>url. new_request env url \<noteq> Some [])
     \<and> (\<forall>url host. client_do env url host \<noteq> Inl [])
     \<and> (\<forall>url host body. client_do env url host \<noteq> Inr (body, Some []))"

text \<open>
  No step of the probe fails: the exchange answers with an A record whose address is not
  empty, the request is built, the fetch succeeds and, where the page is read, the read
  succeeds.
\<close>

definition all_steps_ok :: "path_env \<Rightarrow> string \<Rightarrow> bool \<Rightarrow> bool" where
  "all_steps_ok env name grabPage =
     (case exchange env name of
        Inl err \<Rightarrow> False
      | Inr answer \<Rightarrow>
          firstA answer \<noteq> []
          \<and> new_request env (''http://'' @ firstA answer @ ''/'') = None
          \<and> (case client_do env (''http://'' @ firstA answer @ ''/'') name of
                Inl err \<Rightarrow> False
              | Inr (body, rerr) \<Rightarrow> \<not> grabPage \<or> rerr = None))"


text \<open>
  \<^verbatim>\<open>strings.Join(parts, "\n")\<close>, to say that splitting loses nothing.
\<close>

fun join :: "string list \<Rightarrow> string" where
  "join [] = []"
| "join [x] = x"
| "join (x # y # ys) = x @ CHR 0x0A # join (y # ys)"

text \<open>
  No call of \<^verbatim>\<open>process\<close> panics or hangs: each reaches its send.
\<close>

definition always_emits :: "(nat \<Rightarrow> string \<Rightarrow> outcome) \<Rightarrow> bool" where
  "always_emits proc \<longleftrightarrow> (\<forall>k name. \<exists>r line. proc k name = Emitted r line)"

text \<open>
  A worker holds a name or a result that is in neither channel.
\<close>

fun inflight :: "wstate \<Rightarrow> nat" where
  "inflight (Busy k name) = 1"
| "inflight (Sending r) = 1"
| "inflight w = 0"

text \<open>
  The name a worker holds: the one it has taken, or the one of the result it is sending.
\<close>

fun held :: "wstate \<Rightarrow> string multiset" where
  "held (Busy k name) = {#name#}"
| "held (Sending r) = {#Name r#}"
| "held w = {#}"

text \<open>
  The names in the pool: those waiting, those held by workers, and those of the results
  sent.
\<close>

definition names_of :: "pool \<Rightarrow> string multiset" where
  "names_of s =
     mset (buf (names s)) + sum_list (map held (workers s)) + mset (map Name (buf (results s)))"

text \<open>
  Every call of \<^verbatim>\<open>process\<close> reaches its send, with a result that carries the name it was
  called with.
\<close>

definition emits_named :: "(nat \<Rightarrow> string \<Rightarrow> outcome) \<Rightarrow> bool" where
  "emits_named proc \<longleftrightarrow> (\<forall>k name. \<exists>r line. proc k name = Emitted r line \<and> Name r = name)"

text \<open>
  What holds of the pool while \<^verbatim>\<open>run\<close> works on \<open>n\<close> names: the names channel is closed and
  the results channel is not; every name is waiting, held by a worker, or answered by a
  result in the results channel, which has room for all of them; no worker hangs; and a
  worker has exited only when no name is waiting.
\<close>

definition pool_inv :: "nat \<Rightarrow> pool \<Rightarrow> bool" where
  "pool_inv n s \<longleftrightarrow>
     closed (names s) \<and> \<not> closed (results s)
     \<and> length (buf (names s)) + sum_list (map inflight (workers s)) + length (buf (results s)) = n
     \<and> n \<le> cap (results s)
     \<and> Hung \<notin> set (workers s)
     \<and> (Exited \<in> set (workers s) \<longrightarrow> buf (names s) = [])"

text \<open>
  What holds of the shared state of \<^verbatim>\<open>process\<close>: a field of \<^verbatim>\<open>r\<close> that is set holds the
  outcome of its probe (the plain probe without the page, the tor probe with the page,
  through the dialer that \<^verbatim>\<open>newDialer\<close> gave); the closures were started with these
  arguments; and once the coordinator is past line 141, \<^verbatim>\<open>r.Tor\<close> is set.
\<close>

definition pinv :: "world \<Rightarrow> string \<Rightarrow> pstate \<Rightarrow> bool" where
  "pinv w name s \<longleftrightarrow>
     (\<forall>p. Plain (res s) = Some p \<longrightarrow> p = fst (processName (plain_net w) name False))
     \<and> (\<forall>t. Tor (res s) = Some t \<longrightarrow>
           (\<exists>d. newDialer w = Inr d \<and> t = fst (processName (tor_net w d) name True)))
     \<and> (\<forall>env g. plain_g s = Started env g \<longrightarrow> env = plain_net w \<and> \<not> g)
     \<and> (\<forall>v. plain_g s = Returned v \<longrightarrow> v = fst (processName (plain_net w) name False))
     \<and> (\<forall>env g. tor_g s = Started env g \<longrightarrow> (\<exists>d. newDialer w = Inr d \<and> env = tor_net w d) \<and> g)
     \<and> (\<forall>v. tor_g s = Returned v \<longrightarrow>
           (\<exists>d. newDialer w = Inr d \<and> v = fst (processName (tor_net w d) name True)))
     \<and> (0 < pc s \<longrightarrow> Name (res s) = name)
     \<and> (4 \<le> pc s \<longrightarrow> Tor (res s) \<noteq> None)"


text \<open>
  A result is what a call of \<^verbatim>\<open>process\<close> for its name has sent.
\<close>

definition emitted_by :: "(nat \<Rightarrow> string \<Rightarrow> outcome) \<Rightarrow> result \<Rightarrow> bool" where
  "emitted_by proc r \<longleftrightarrow> (\<exists>k line. proc k (Name r) = Emitted r line)"

text \<open>
  Every result in the results channel or in the hands of a worker is one that a call of
  \<^verbatim>\<open>process\<close> has sent.
\<close>

definition results_inv :: "(nat \<Rightarrow> string \<Rightarrow> outcome) \<Rightarrow> pool \<Rightarrow> bool" where
  "results_inv proc s \<longleftrightarrow>
     (\<forall>r \<in> set (buf (results s)). emitted_by proc r)
     \<and> (\<forall>r. Sending r \<in> set (workers s) \<longrightarrow> emitted_by proc r)"

section \<open>Example networks and worlds\<close>

text \<open>A network on which every step succeeds: one A record, and a page.\<close>

definition good_net :: path_env where
  "good_net =
     \<lparr>exchange = (\<lambda>name. Inr [RR_Other, RR_A ''192.0.2.7'', RR_A ''192.0.2.8'']),
      lookup_took = 5,
      new_request = (\<lambda>url. None),
      client_do = (\<lambda>url host. Inr (''<html>'', None)),
      http_took = 7\<rparr>"

text \<open>The resolver answers with an empty answer section.\<close>

definition empty_net :: path_env where
  "empty_net = good_net\<lparr>exchange := (\<lambda>name. Inr [])\<rparr>"

text \<open>The resolver answers with records none of which is an A record.\<close>

definition other_net :: path_env where
  "other_net = good_net\<lparr>exchange := (\<lambda>name. Inr [RR_Other, RR_Other])\<rparr>"

text \<open>The resolver fails.\<close>

definition timeout_net :: path_env where
  "timeout_net = good_net\<lparr>exchange := (\<lambda>name. Inl ''i/o timeout'')\<rparr>"

text \<open>The name resolves, and nothing listens at the address.\<close>

definition refused_net :: path_env where
  "refused_net = good_net\<lparr>client_do := (\<lambda>url host. Inl ''connection refused'')\<rparr>"

text \<open>The fetch succeeds, and the body read fails after five bytes.\<close>

definition broken_net :: path_env where
  "broken_net = good_net\<lparr>client_do := (\<lambda>url host. Inr (''<html'', Some ''unexpected EOF''))\<rparr>"

text \<open>
  A world in which \<^verbatim>\<open>rand.Read\<close> delivers the bytes 0 to 15 and both paths reach the
  network on which every step succeeds.
\<close>

definition good_world :: world where
  "good_world =
     \<lparr>rand_read = Inr (map of_nat [0 ..< 16]), socks5_err = None,
      plain_net = good_net, tor_net = (\<lambda>d. good_net)\<rparr>"



text \<open>
  The result of a call of the coordinator in \<open>good_world\<close> in which both closures have
  assigned.
\<close>

definition good_result :: "string \<Rightarrow> result" where
  "good_result name =
     \<lparr>Name = name,
      Tor = Some \<lparr>LookupTook = 5, HTTPConnectionTook = 7, Error = [], Page = ''<html>'',
                  IP = ''192.0.2.7''\<rparr>,
      Plain = Some \<lparr>LookupTook = 5, HTTPConnectionTook = 7, Error = [], Page = [],
                    IP = ''192.0.2.7''\<rparr>\<rparr>"

section \<open>Termination of the coordinator and of the worker pool\<close>

lemma scheduled_mem: "scheduled sched en = Some x \<Longrightarrow> x \<in> set en"
proof -
  assume a: "scheduled sched en = Some x"
  then have ne: "en \<noteq> []" and x: "x = en ! (pick sched mod length en)"
    by (auto simp: scheduled_def split: if_splits)
  from ne have "pick sched mod length en < length en" by simp
  then show "x \<in> set en" unfolding x by (rule nth_mem)
qed

lemma scheduled_filter: "scheduled sched (filter P xs) = Some x \<Longrightarrow> P x"
  using scheduled_mem [of sched "filter P xs" x] by simp

lemma pstep_weight:
  "penabled s t \<Longrightarrow> pstep w name t s = Inr s' \<Longrightarrow> pweight s' < pweight s"
  by (cases t)
     (auto simp: pweight_def coordinator_def plainProbe_def torProbe_def wgDone_def gstep_def
           split: if_splits sum.splits option.splits gstate.splits)

termination process_from
proof (relation "measure (\<lambda>(w, name, sched, s). pweight s)")
  show "wf (measure (\<lambda>(w, name, sched, s). pweight s))" by simp
next
  fix w :: world and name :: string and sched :: "nat list" and s t s'
  assume en: "scheduled sched (filter (penabled s) [Coordinator, PlainProbe, TorProbe]) = Some t"
    and st: "pstep w name t s = Inr s'"
  from en have "penabled s t" by (rule scheduled_filter)
  then have "pweight s' < pweight s" using st by (rule pstep_weight)
  then show "((w, name, tl sched, s'), (w, name, sched, s))
      \<in> measure (\<lambda>(w, name, sched, s). pweight s)"
    by simp
qed



lemma sum_list_map_update:
  "i < length ws \<Longrightarrow>
     sum_list (map f (ws[i := v])) + f (ws ! i) = sum_list (map f ws) + (f v :: nat)"
proof (induction ws arbitrary: i)
  case Nil
  then show ?case by simp
next
  case (Cons a ws)
  then show ?case by (cases i) (auto simp: add.assoc)
qed

lemma wstep_weight:
  assumes "i < length (workers s)" and "wenabled s i" and "wstep proc i s = Inr s'"
  shows "poolweight s' < poolweight s"
proof -
  have upd: "\<And>v. sum_list (map wweight ((workers s)[i := v])) + wweight (workers s ! i)
      = sum_list (map wweight (workers s)) + wweight v"
    using assms(1) by (rule sum_list_map_update)
  show ?thesis
  proof (cases "workers s ! i")
    case Idle
    show ?thesis
    proof (cases "buf (names s)")
      case Nil
      with Idle assms upd [of Exited] show ?thesis
        by (auto simp: wstep_def wenabled_def chan_recv_def poolweight_def split: if_splits)
    next
      case (Cons n rest)
      with Idle assms upd [of "Busy (taken s) n"] show ?thesis
        by (auto simp: wstep_def wenabled_def chan_recv_def poolweight_def)
    qed
  next
    case (Busy k name)
    show ?thesis
    proof (cases "proc k name")
      case (Panicked p)
      with Busy assms show ?thesis by (simp add: wstep_def)
    next
      case (Emitted r line)
      with Busy assms upd [of "Sending r"] show ?thesis
        by (auto simp: wstep_def poolweight_def)
    next
      case Deadlocked
      with Busy assms upd [of Hung] show ?thesis
        by (auto simp: wstep_def poolweight_def)
    qed
  next
    case (Sending r)
    with assms upd [of Idle] show ?thesis
      by (auto simp: wstep_def wenabled_def chan_send_def poolweight_def split: if_splits)
  next
    case Hung
    with assms show ?thesis by (simp add: wenabled_def)
  next
    case Exited
    with assms show ?thesis by (simp add: wenabled_def)
  qed
qed

termination run_loop
proof (relation "measure (\<lambda>(proc, sched, s). poolweight s)")
  show "wf (measure (\<lambda>(proc, sched, s). poolweight s))" by simp
next
  fix proc :: "nat \<Rightarrow> string \<Rightarrow> outcome" and sched :: "nat list" and s i s'
  assume en: "scheduled sched (filter (wenabled s) [0..<length (workers s)]) = Some i"
    and st: "wstep proc i s = Inr s'"
  from en have e: "wenabled s i" by (rule scheduled_filter)
  from en have "i \<in> set (filter (wenabled s) [0..<length (workers s)])"
    by (rule scheduled_mem)
  then have "i < length (workers s)" by simp
  then have "poolweight s' < poolweight s" using e st by (rule wstep_weight)
  then show "((proc, tl sched, s'), (proc, sched, s)) \<in> measure (\<lambda>(proc, sched, s). poolweight s)"
    by simp
qed

section \<open>Facts about the probe\<close>

lemma firstA_skip:
  "set pre \<subseteq> {RR_Other} \<Longrightarrow> firstA (pre @ RR_A s # post) = s"
  by (induction pre) auto

lemma firstA_none:
  "(\<And>s. RR_A s \<notin> set ans) \<Longrightarrow> firstA ans = []"
  by (induction ans rule: firstA.induct) auto

lemmas probe_defs =
  processName_def processName0_def processNameWith_def lookupStep_def fetchStep_def Let_def

lemmas net_defs =
  good_net_def empty_net_def other_net_def timeout_net_def refused_net_def broken_net_def

lemma errors_have_text_nets:
  "errors_have_text good_net" "errors_have_text empty_net" "errors_have_text other_net"
  "errors_have_text timeout_net" "errors_have_text refused_net" "errors_have_text broken_net"
  by (simp_all add: errors_have_text_def net_defs)

lemma probe_exchange_failed:
  "exchange env name = Inl err \<Longrightarrow>
     processNameWith m env name g =
       (\<lparr>LookupTook = lookup_took env, HTTPConnectionTook = 0, Error = err, Page = [], IP = []\<rparr>,
        [Exchange name])"
  by (simp add: probe_defs)

lemma probe_no_answer:
  "exchange env name = Inr [] \<Longrightarrow>
     processNameWith m env name g =
       (\<lparr>LookupTook = lookup_took env, HTTPConnectionTook = 0, Error = ''No addresses found'',
         Page = [], IP = []\<rparr>,
        [Exchange name])"
  by (simp add: probe_defs)

lemma probe_malformed:
  "exchange env name = Inr ans \<Longrightarrow> ans \<noteq> [] \<Longrightarrow> firstA ans = [] \<Longrightarrow>
     processNameWith m env name g =
       (\<lparr>LookupTook = lookup_took env, HTTPConnectionTook = 0, Error = m, Page = [], IP = []\<rparr>,
        [Exchange name])"
  by (simp add: probe_defs)

lemma probe_request_failed:
  "exchange env name = Inr ans \<Longrightarrow> firstA ans \<noteq> [] \<Longrightarrow>
   new_request env (''http://'' @ firstA ans @ ''/'') = Some err \<Longrightarrow>
     processNameWith m env name g =
       (\<lparr>LookupTook = lookup_took env, HTTPConnectionTook = 0, Error = err, Page = [],
         IP = firstA ans\<rparr>,
        [Exchange name, NewRequest (''http://'' @ firstA ans @ ''/'')])"
  by (auto simp: probe_defs)

lemma probe_fetch_failed:
  "exchange env name = Inr ans \<Longrightarrow> firstA ans \<noteq> [] \<Longrightarrow>
   new_request env (''http://'' @ firstA ans @ ''/'') = None \<Longrightarrow>
   client_do env (''http://'' @ firstA ans @ ''/'') name = Inl err \<Longrightarrow>
     processNameWith m env name g =
       (\<lparr>LookupTook = lookup_took env, HTTPConnectionTook = http_took env, Error = err,
         Page = [], IP = firstA ans\<rparr>,
        [Exchange name, NewRequest (''http://'' @ firstA ans @ ''/''),
         Do (''http://'' @ firstA ans @ ''/'') name])"
  by (auto simp: probe_defs)

lemma probe_fetched:
  "exchange env name = Inr ans \<Longrightarrow> firstA ans \<noteq> [] \<Longrightarrow>
   new_request env (''http://'' @ firstA ans @ ''/'') = None \<Longrightarrow>
   client_do env (''http://'' @ firstA ans @ ''/'') name = Inr (body, rerr) \<Longrightarrow>
     processNameWith m env name False =
       (\<lparr>LookupTook = lookup_took env, HTTPConnectionTook = http_took env, Error = [],
         Page = [], IP = firstA ans\<rparr>,
        [Exchange name, NewRequest (''http://'' @ firstA ans @ ''/''),
         Do (''http://'' @ firstA ans @ ''/'') name, CloseBody])"
  by (auto simp: probe_defs)

lemma probe_read:
  "exchange env name = Inr ans \<Longrightarrow> firstA ans \<noteq> [] \<Longrightarrow>
   new_request env (''http://'' @ firstA ans @ ''/'') = None \<Longrightarrow>
   client_do env (''http://'' @ firstA ans @ ''/'') name = Inr (body, rerr) \<Longrightarrow>
     processNameWith m env name True =
       (\<lparr>LookupTook = lookup_took env, HTTPConnectionTook = http_took env,
         Error = (case rerr of None \<Rightarrow> [] | Some err \<Rightarrow> err),
         Page = body, IP = firstA ans\<rparr>,
        [Exchange name, NewRequest (''http://'' @ firstA ans @ ''/''),
         Do (''http://'' @ firstA ans @ ''/'') name, ReadAll, CloseBody])"
  by (auto simp: probe_defs split: option.splits)

lemma probe_cases:
  obtains
    (exchange_failed) err where "exchange env name = Inl err"
  | (no_address) ans where "exchange env name = Inr ans" "firstA ans = []"
  | (request_failed) ans err where "exchange env name = Inr ans" "firstA ans \<noteq> []"
      "new_request env (''http://'' @ firstA ans @ ''/'') = Some err"
  | (fetch_failed) ans err where "exchange env name = Inr ans" "firstA ans \<noteq> []"
      "new_request env (''http://'' @ firstA ans @ ''/'') = None"
      "client_do env (''http://'' @ firstA ans @ ''/'') name = Inl err"
  | (fetched) ans body rerr where "exchange env name = Inr ans" "firstA ans \<noteq> []"
      "new_request env (''http://'' @ firstA ans @ ''/'') = None"
      "client_do env (''http://'' @ firstA ans @ ''/'') name = Inr (body, rerr)"
proof (cases "exchange env name")
  case (Inl err)
  then show ?thesis by (rule exchange_failed)
next
  case (Inr ans)
  note x = this
  show ?thesis
  proof (cases "firstA ans = []")
    case True
    with x show ?thesis by (rule no_address)
  next
    case False
    note f = this
    show ?thesis
    proof (cases "new_request env (''http://'' @ firstA ans @ ''/'')")
      case (Some err)
      with x f show ?thesis by (rule request_failed)
    next
      case None
      note n = this
      show ?thesis
      proof (cases "client_do env (''http://'' @ firstA ans @ ''/'') name")
        case (Inl err)
        with x f n show ?thesis by (rule fetch_failed)
      next
        case (Inr resp)
        then have "client_do env (''http://'' @ firstA ans @ ''/'') name = Inr (fst resp, snd resp)"
          by simp
        with x f n show ?thesis by (rule fetched)
      qed
    qed
  qed
qed

lemma probe_no_address:
  assumes "exchange env name = Inr ans" and "firstA ans = []"
  shows "\<exists>e. e \<in> {''No addresses found'', m} \<and>
     processNameWith m env name g =
       (\<lparr>LookupTook = lookup_took env, HTTPConnectionTook = 0, Error = e, Page = [], IP = []\<rparr>,
        [Exchange name])"
proof (cases "ans = []")
  case True
  with assms show ?thesis by (simp add: probe_no_answer)
next
  case False
  with assms show ?thesis by (simp add: probe_malformed)
qed

lemma error_empty_iff:
  assumes "errors_have_text env"
  shows "(Error (fst (processName env name g)) = []) = all_steps_ok env name g"
proof -
  from assms have x: "\<And>n. exchange env n \<noteq> Inl []"
    and n: "\<And>u. new_request env u \<noteq> Some []"
    and d: "\<And>u h. client_do env u h \<noteq> Inl []"
    and b: "\<And>u h body. client_do env u h \<noteq> Inr (body, Some [])"
    by (simp_all add: errors_have_text_def)
  show ?thesis
  proof (cases env name rule: probe_cases)
    case (exchange_failed err)
    with x [of name] show ?thesis
      by (auto simp: processName_def probe_exchange_failed all_steps_ok_def)
  next
    case (no_address ans)
    with probe_no_address [OF no_address, of "''Malformed DNS response''" g] show ?thesis
      by (auto simp: processName_def all_steps_ok_def)
  next
    case (request_failed ans err)
    with n [of "''http://'' @ firstA ans @ ''/''"] show ?thesis
      by (auto simp: processName_def probe_request_failed all_steps_ok_def)
  next
    case (fetch_failed ans err)
    with d [of "''http://'' @ firstA ans @ ''/''" name] show ?thesis
      by (auto simp: processName_def probe_fetch_failed all_steps_ok_def)
  next
    case (fetched ans body rerr)
    with b [of "''http://'' @ firstA ans @ ''/''" name body] show ?thesis
      by (cases g; cases rerr)
         (auto simp: processName_def probe_fetched probe_read all_steps_ok_def)
  qed
qed

section \<open>Facts about the proxy identity\<close>













section \<open>Facts about the coordinator\<close>

lemma pinv_init: "pinv w name pstate0"
  by (simp add: pinv_def pstate0_def)

lemma coordinator_pinv:
  "pinv w name s \<Longrightarrow> coordinator w name s = Inr s' \<Longrightarrow> pinv w name s'"
  by (auto simp: pinv_def coordinator_def split: if_splits sum.splits option.splits)

lemma plainProbe_pinv:
  "pinv w name s \<Longrightarrow> plainProbe name s = Inr s' \<Longrightarrow> pinv w name s'"
  by (auto simp: pinv_def plainProbe_def wgDone_def gstep_def split: if_splits gstate.splits)

lemma torProbe_pinv:
  "pinv w name s \<Longrightarrow> torProbe name s = Inr s' \<Longrightarrow> pinv w name s'"
  by (auto simp: pinv_def torProbe_def wgDone_def gstep_def split: if_splits gstate.splits)

lemma pstep_pinv:
  "pinv w name s \<Longrightarrow> pstep w name t s = Inr s' \<Longrightarrow> pinv w name s'"
  by (cases t) (auto intro: coordinator_pinv plainProbe_pinv torProbe_pinv)

lemma pstep_emitted:
  "pstep w name t s = Inl (Emitted r line) \<Longrightarrow> r = res s \<and> 4 \<le> pc s"
  by (cases t)
     (auto simp: coordinator_def plainProbe_def torProbe_def wgDone_def
           split: if_splits sum.splits option.splits gstate.splits)

lemma process_from_emitted:
  "pinv w name s \<Longrightarrow> process_from w name sched s = Emitted r line \<Longrightarrow>
     \<exists>s'. pinv w name s' \<and> r = res s' \<and> 4 \<le> pc s'"
proof (induction w name sched s rule: process_from.induct)
  case (1 w name sched s)
  show ?case
  proof (cases "scheduled sched (filter (penabled s) [Coordinator, PlainProbe, TorProbe])")
    case None
    with "1.prems" show ?thesis by (simp add: process_from.simps [of w name sched s])
  next
    case (Some t)
    show ?thesis
    proof (cases "pstep w name t s")
      case (Inl out)
      with Some "1.prems" have "pstep w name t s = Inl (Emitted r line)"
        by (simp add: process_from.simps [of w name sched s])
      with "1.prems"(1) show ?thesis by (auto dest: pstep_emitted)
    next
      case (Inr s')
      with Some "1.prems" have e: "process_from w name (tl sched) s' = Emitted r line"
        by (simp add: process_from.simps [of w name sched s])
      from "1.prems"(1) Inr have "pinv w name s'" by (rule pstep_pinv)
      with "1.IH" [OF Some Inr] e show ?thesis by simp
    qed
  qed
qed

lemma process_emitted:
  assumes "process w name sched = Emitted r line"
  shows "Name r = name"
    and "\<exists>d. newDialer w = Inr d \<and> Tor r = Some (fst (processName (tor_net w d) name True))"
    and "Plain r = None \<or> Plain r = Some (fst (processName (plain_net w) name False))"
proof -
  from assms have "process_from w name sched pstate0 = Emitted r line"
    by (simp add: process_def pstate0_def)
  with pinv_init obtain s' where i: "pinv w name s'" and r: "r = res s'" and p: "4 \<le> pc s'"
    by (blast dest: process_from_emitted)
  from i p show "Name r = name" by (simp add: pinv_def r)
  from i p show "\<exists>d. newDialer w = Inr d \<and> Tor r = Some (fst (processName (tor_net w d) name True))"
    unfolding pinv_def r by (cases "Tor (res s')") auto
  from i show "Plain r = None \<or> Plain r = Some (fst (processName (plain_net w) name False))"
    unfolding pinv_def r by (cases "Plain (res s')") auto
qed

lemma good_world_emits:
  "process good_world name [0, 0, 1, 1, 1, 1] =
     Emitted \<lparr>Name = name,
        Tor = Some \<lparr>LookupTook = 5, HTTPConnectionTook = 7, Error = [], Page = ''<html>'',
                    IP = ''192.0.2.7''\<rparr>,
        Plain = Some \<lparr>LookupTook = 5, HTTPConnectionTook = 7, Error = [], Page = [],
                      IP = ''192.0.2.7''\<rparr>\<rparr> '':)''"
  by (simp add: process_def pstate0_def process_from.simps scheduled_def coordinator_def plainProbe_def
        torProbe_def wgDone_def gstep_def good_world_def newDialer_def randomString_def
        probe_defs net_defs)

lemma good_world_always_emits:
  "always_emits (\<lambda>k name. process good_world name [0, 0, 1, 1, 1, 1])"
  unfolding always_emits_def using good_world_emits by blast







section \<open>Facts about the names and the worker pool\<close>

lemma scanNL_nonempty: "scanNL cur s \<noteq> []"
  by (induction s arbitrary: cur) auto

lemma length_scanNL: "length (scanNL cur s) = count_list s (CHR 0x0A) + 1"
  by (induction s arbitrary: cur) auto

lemma scanNL_trailing: "scanNL cur (s @ [CHR 0x0A]) = scanNL cur s @ [[]]"
  by (induction s arbitrary: cur) auto

lemma join_Cons: "ys \<noteq> [] \<Longrightarrow> join (x # ys) = x @ CHR 0x0A # join ys"
  by (cases ys) simp_all

lemma join_scanNL: "join (scanNL cur s) = cur @ s"
  by (induction s arbitrary: cur) (simp_all add: join_Cons scanNL_nonempty)

lemma send_all_fits:
  "\<not> closed c \<Longrightarrow> length (buf c) + length vs \<le> cap c \<Longrightarrow>
     send_all c vs = Inr (c\<lparr>buf := buf c @ vs\<rparr>)"
proof (induction vs arbitrary: c)
  case Nil
  then show ?case by simp
next
  case (Cons v vs)
  then have "send_all (c\<lparr>buf := buf c @ [v]\<rparr>) vs
      = Inr (c\<lparr>buf := buf c @ [v]\<rparr>\<lparr>buf := buf (c\<lparr>buf := buf c @ [v]\<rparr>) @ vs\<rparr>)"
    by (intro Cons.IH) simp_all
  with Cons.prems show ?case by (simp add: chan_send_def)
qed

lemma load_names_eq:
  "load_names content =
     Inr \<lparr>buf = Split content, cap = length (Split content), closed = True\<rparr>"
  by (simp add: load_names_def Let_def send_all_fits make_chan_def chan_close_def)

lemma inflight_le:
  "i < length ws \<Longrightarrow> inflight (ws ! i) \<le> sum_list (map inflight ws)"
  using member_le_sum_list [of "inflight (ws ! i)" "map inflight ws"] by simp

lemma in_set_update:
  "x \<in> set (ws[i := v]) \<Longrightarrow> x = v \<or> x \<in> set ws"
  using set_update_subset_insert [of ws i v] by auto

lemma wstep_inv:
  assumes inv: "pool_inv n s" and i: "i < length (workers s)" and en: "wenabled s i"
    and proc: "always_emits proc"
  shows "\<exists>s'. wstep proc i s = Inr s' \<and> pool_inv n s'
           \<and> length (workers s') = length (workers s)"
proof -
  have upd: "\<And>v. sum_list (map inflight ((workers s)[i := v])) + inflight (workers s ! i)
      = sum_list (map inflight (workers s)) + inflight v"
    using i by (rule sum_list_map_update)
  note mem = in_set_update [of _ "workers s" i]
  show ?thesis
  proof (cases "workers s ! i")
    case Idle
    show ?thesis
    proof (cases "buf (names s)")
      case Nil
      with Idle inv upd [of Exited] show ?thesis
        by (auto simp: wstep_def chan_recv_def pool_inv_def dest: mem)
    next
      case (Cons name rest)
      with Idle inv upd [of "Busy (taken s) name"] show ?thesis
        by (auto simp: wstep_def chan_recv_def pool_inv_def dest: mem)
    qed
  next
    case (Busy k name)
    from proc obtain r line where "proc k name = Emitted r line"
      unfolding always_emits_def by blast
    with Busy inv upd [of "Sending r"] show ?thesis
      by (auto simp: wstep_def pool_inv_def dest: mem)
  next
    case (Sending r)
    with inflight_le [OF i] have "1 \<le> sum_list (map inflight (workers s))" by simp
    with inv have "length (buf (results s)) < cap (results s)"
      by (simp add: pool_inv_def)
    with Sending inv upd [of Idle] show ?thesis
      by (auto simp: wstep_def chan_send_def pool_inv_def dest: mem)
  next
    case Hung
    with en show ?thesis by (simp add: wenabled_def)
  next
    case Exited
    with en show ?thesis by (simp add: wenabled_def)
  qed
qed

lemma inv_enabled:
  assumes inv: "pool_inv n s" and i: "i < length (workers s)" and ne: "workers s ! i \<noteq> Exited"
  shows "wenabled s i"
proof (cases "workers s ! i")
  case Idle
  with inv show ?thesis
    by (auto simp: wenabled_def chan_recv_def pool_inv_def split: list.splits)
next
  case (Busy k name)
  then show ?thesis by (simp add: wenabled_def)
next
  case (Sending r)
  with inflight_le [OF i] have "1 \<le> sum_list (map inflight (workers s))" by simp
  with inv have "length (buf (results s)) < cap (results s)"
    by (simp add: pool_inv_def)
  with Sending inv show ?thesis
    by (simp add: wenabled_def chan_send_def pool_inv_def)
next
  case Hung
  with inv i show ?thesis by (auto simp: pool_inv_def dest: nth_mem)
next
  case Exited
  with ne show ?thesis by simp
qed

lemma scheduled_None: "scheduled sched en = None \<longleftrightarrow> en = []"
  by (simp add: scheduled_def)

lemma run_loop_returns:
  "pool_inv n s \<Longrightarrow> always_emits proc \<Longrightarrow>
     \<exists>s'. run_loop proc sched s = RunReturned s' \<and> pool_inv n s'
          \<and> list_all (\<lambda>w. w = Exited) (workers s')
          \<and> length (workers s') = length (workers s)"
proof (induction proc sched s rule: run_loop.induct)
  case (1 proc sched s)
  let ?en = "filter (wenabled s) [0..<length (workers s)]"
  show ?case
  proof (cases "scheduled sched ?en")
    case None
    then have "?en = []" by (simp add: scheduled_None)
    then have "\<forall>i < length (workers s). \<not> wenabled s i"
      by (auto simp: filter_empty_conv)
    with "1.prems"(1) have "\<forall>i < length (workers s). workers s ! i = Exited"
      using inv_enabled by blast
    then have "list_all (\<lambda>w. w = Exited) (workers s)"
      by (simp add: list_all_length)
    with None "1.prems"(1) show ?thesis
      by (simp add: run_loop.simps [of proc sched s])
  next
    case (Some i)
    then have e: "wenabled s i" by (rule scheduled_filter)
    from Some have "i \<in> set ?en" by (rule scheduled_mem)
    then have i: "i < length (workers s)" by simp
    from wstep_inv [OF "1.prems"(1) i e "1.prems"(2)]
    obtain s1 where st: "wstep proc i s = Inr s1" and inv1: "pool_inv n s1"
      and len: "length (workers s1) = length (workers s)"
      by blast
    from "1.IH" [OF Some st inv1 "1.prems"(2)] len Some st show ?thesis
      by (simp add: run_loop.simps [of proc sched s])
  qed
qed

lemma wstep_results_open:
  "wstep proc i s = Inr s' \<Longrightarrow> closed (results s') = closed (results s)"
  by (auto simp: wstep_def chan_send_def chan_recv_def
        split: wstate.splits received.splits outcome.splits sum.splits chan_fault.splits
          if_splits)

lemma run_loop_results_open:
  "run_loop proc sched s = RunReturned s' \<Longrightarrow> closed (results s') = closed (results s)"
proof (induction proc sched s rule: run_loop.induct)
  case (1 proc sched s)
  show ?case
  proof (cases "scheduled sched (filter (wenabled s) [0..<length (workers s)])")
    case None
    with "1.prems" show ?thesis
      by (simp add: run_loop.simps [of proc sched s] split: if_splits)
  next
    case (Some i)
    show ?thesis
    proof (cases "wstep proc i s")
      case (Inl p)
      with Some "1.prems" show ?thesis by (simp add: run_loop.simps [of proc sched s])
    next
      case (Inr s1)
      with Some "1.prems" have "run_loop proc (tl sched) s1 = RunReturned s'"
        by (simp add: run_loop.simps [of proc sched s])
      with "1.IH" [OF Some Inr] wstep_results_open [OF Inr] show ?thesis by simp
    qed
  qed
qed

lemma collect_open:
  "\<not> closed c \<Longrightarrow> collect c acc = Inl (acc @ buf c)"
proof (induction "buf c" arbitrary: c acc)
  case Nil
  then show ?case by (simp add: collect.simps [of c acc] chan_recv_def)
next
  case (Cons r rest)
  from Cons(2) have b: "buf c = r # rest" by simp
  have "collect (c\<lparr>buf := rest\<rparr>) (acc @ [r]) = Inl ((acc @ [r]) @ buf (c\<lparr>buf := rest\<rparr>))"
    using Cons(3) by (intro Cons(1)) simp_all
  with b show ?case by (simp add: collect.simps [of c acc] chan_recv_def)
qed

lemma all_exited_inflight:
  "list_all (\<lambda>w. w = Exited) ws \<Longrightarrow> sum_list (map inflight ws) = 0"
  by (induction ws) auto

lemma sum_list_held_update:
  "i < length ws \<Longrightarrow>
     sum_list (map held (ws[i := v])) + held (ws ! i) = sum_list (map held ws) + held v"
proof (induction ws arbitrary: i)
  case Nil
  then show ?case by simp
next
  case (Cons a ws)
  then show ?case by (cases i) (auto simp: ac_simps)
qed

lemma wstep_names:
  assumes proc: "emits_named proc" and i: "i < length (workers s)"
    and st: "wstep proc i s = Inr s'"
  shows "names_of s' = names_of s"
proof -
  have upd: "\<And>v. sum_list (map held ((workers s)[i := v])) + held (workers s ! i)
      = sum_list (map held (workers s)) + held v"
    using i by (rule sum_list_held_update)
  show ?thesis
  proof (cases "workers s ! i")
    case Idle
    show ?thesis
    proof (cases "buf (names s)")
      case Nil
      with Idle st upd [of Exited] show ?thesis
        by (auto simp: wstep_def chan_recv_def names_of_def split: if_splits)
    next
      case (Cons name rest)
      with Idle st upd [of "Busy (taken s) name"] show ?thesis
        by (auto simp: wstep_def chan_recv_def names_of_def)
    qed
  next
    case (Busy k name)
    from proc obtain r line where "proc k name = Emitted r line" and "Name r = name"
      unfolding emits_named_def by blast
    with Busy st upd [of "Sending r"] show ?thesis
      by (auto simp: wstep_def names_of_def)
  next
    case (Sending r)
    with st upd [of Idle] show ?thesis
      by (auto simp: wstep_def chan_send_def names_of_def split: if_splits)
  next
    case Hung
    with st show ?thesis by (simp add: wstep_def)
  next
    case Exited
    with st show ?thesis by (simp add: wstep_def)
  qed
qed

lemma run_loop_names:
  "emits_named proc \<Longrightarrow> run_loop proc sched s = RunReturned s' \<Longrightarrow> names_of s' = names_of s"
proof (induction proc sched s rule: run_loop.induct)
  case (1 proc sched s)
  let ?en = "filter (wenabled s) [0..<length (workers s)]"
  show ?case
  proof (cases "scheduled sched ?en")
    case None
    with "1.prems" show ?thesis
      by (simp add: run_loop.simps [of proc sched s] split: if_splits)
  next
    case (Some i)
    from Some have "i \<in> set ?en" by (rule scheduled_mem)
    then have i: "i < length (workers s)" by simp
    show ?thesis
    proof (cases "wstep proc i s")
      case (Inl p)
      with Some "1.prems" show ?thesis by (simp add: run_loop.simps [of proc sched s])
    next
      case (Inr s1)
      with Some "1.prems" have "run_loop proc (tl sched) s1 = RunReturned s'"
        by (simp add: run_loop.simps [of proc sched s])
      with "1.IH" [OF Some Inr "1.prems"(1)] wstep_names [OF "1.prems"(1) i Inr]
      show ?thesis by simp
    qed
  qed
qed

lemma all_exited_held:
  "list_all (\<lambda>w. w = Exited) ws \<Longrightarrow> sum_list (map held ws) = {#}"
  by (induction ws) auto

lemma process_emits_named:
  "always_emits (\<lambda>k name. process (worlds k) name (scheds k)) \<Longrightarrow>
     emits_named (\<lambda>k name. process (worlds k) name (scheds k))"
  unfolding always_emits_def emits_named_def
  by (metis process_emitted(1))

lemma run_returns:
  assumes w: "1 \<le> n" and c: "closed (names s)" and r: "results s = make_chan (length (buf (names s)))"
    and proc: "always_emits proc" and named: "emits_named proc"
  shows "\<exists>s'. run proc sched n s = RunReturned s' \<and> \<not> closed (results s')
           \<and> length (buf (results s')) = length (buf (names s))
           \<and> mset (map Name (buf (results s'))) = mset (buf (names s))"
proof -
  let ?s = "s\<lparr>workers := replicate (nat n) Idle\<rparr>"
  from w have ne: "replicate (nat n) Idle \<noteq> []" by simp
  have z: "sum_list (map inflight (replicate (nat n) Idle)) = 0"
    by (induction "nat n") simp_all
  have "sum_list (map held (replicate k Idle)) = {#}" for k
    by (induction k) simp_all
  then have zh: "sum_list (map held (replicate (nat n) Idle)) = {#}" .
  from z c r have "pool_inv (length (buf (names s))) ?s"
    by (auto simp: pool_inv_def make_chan_def)
  from run_loop_returns [OF this proc, of sched]
  obtain s' where run: "run_loop proc sched ?s = RunReturned s'"
    and inv: "pool_inv (length (buf (names s))) s'"
    and ex: "list_all (\<lambda>w. w = Exited) (workers s')"
    and len: "length (workers s') = length (workers ?s)"
    by blast
  from len ne have "workers s' \<noteq> []" by auto
  with ex have "Exited \<in> set (workers s')"
    by (cases "workers s'") auto
  with inv have e: "buf (names s') = []" by (simp add: pool_inv_def)
  with inv all_exited_inflight [OF ex]
  have l: "length (buf (results s')) = length (buf (names s))" and o: "\<not> closed (results s')"
    by (simp_all add: pool_inv_def)
  from run_loop_names [OF named run] have "names_of s' = names_of ?s" .
  with e all_exited_held [OF ex] zh r
  have "mset (map Name (buf (results s'))) = mset (buf (names s))"
    by (simp add: names_of_def make_chan_def)
  with run l o show ?thesis by (simp add: run_def)
qed

lemma main_never_collects:
  "main f workers_flag worlds scheds sched \<noteq> Collected rs"
proof (cases f)
  case (Inl err)
  then show ?thesis by (simp add: main_def)
next
  case (Inr content)
  let ?c = "\<lparr>buf = Split content, cap = length (Split content), closed = True\<rparr>"
  let ?s = "\<lparr>names = ?c, results = make_chan (length (Split content)), workers = [], taken = 0\<rparr>"
  let ?run = "run (\<lambda>k name. process (worlds k) name (scheds k)) sched workers_flag ?s"
  show ?thesis
  proof (cases ?run)
    case (RunReturned s')
    then have "closed (results s') = closed (results (?s\<lparr>workers := replicate (nat workers_flag) Idle\<rparr>))"
      unfolding run_def by (rule run_loop_results_open)
    then have "\<not> closed (results s')" by (simp add: make_chan_def)
    then have "collect (results s') [] = Inl ([] @ buf (results s'))" by (rule collect_open)
    with Inr RunReturned show ?thesis by (simp add: main_def load_names_eq)
  qed (simp_all add: Inr main_def load_names_eq)
qed

lemma sending_update:
  assumes "\<forall>r. Sending r \<in> set ws \<longrightarrow> P r" and "\<forall>r. v = Sending r \<longrightarrow> P r"
  shows "\<forall>r. Sending r \<in> set (ws[i := v]) \<longrightarrow> P r"
proof (intro allI impI)
  fix r
  assume "Sending r \<in> set (ws[i := v])"
  then have "Sending r = v \<or> Sending r \<in> set ws" by (rule in_set_update)
  with assms show "P r" by auto
qed

lemma wstep_results_inv:
  assumes proc: "emits_named proc" and inv: "results_inv proc s"
    and i: "i < length (workers s)" and st: "wstep proc i s = Inr s'"
  shows "results_inv proc s'"
proof -
  from inv have b: "\<forall>r \<in> set (buf (results s)). emitted_by proc r"
    and w: "\<forall>r. Sending r \<in> set (workers s) \<longrightarrow> emitted_by proc r"
    by (simp_all add: results_inv_def)
  show ?thesis
  proof (cases "workers s ! i")
    case Idle
    show ?thesis
    proof (cases "buf (names s)")
      case Nil
      with Idle st have "s' = s \<or> s' = s\<lparr>workers := (workers s)[i := Exited]\<rparr>"
        by (auto simp: wstep_def chan_recv_def split: if_splits)
      with inv b sending_update [OF w, of Exited i] show ?thesis
        by (auto simp: results_inv_def)
    next
      case (Cons name rest)
      with Idle st have "s' = s\<lparr>names := (names s)\<lparr>buf := rest\<rparr>,
          workers := (workers s)[i := Busy (taken s) name], taken := taken s + 1\<rparr>"
        by (simp add: wstep_def chan_recv_def)
      with b sending_update [OF w, of "Busy (taken s) name" i] show ?thesis
        by (simp add: results_inv_def)
    qed
  next
    case (Busy k name)
    from proc obtain r line where e: "proc k name = Emitted r line" and n: "Name r = name"
      unfolding emits_named_def by blast
    then have "emitted_by proc r" unfolding emitted_by_def by blast
    then have "\<forall>r'. Sending r = Sending r' \<longrightarrow> emitted_by proc r'" by simp
    from sending_update [OF w this, of i] have
      "\<forall>r'. Sending r' \<in> set ((workers s)[i := Sending r]) \<longrightarrow> emitted_by proc r'" .
    moreover from Busy st e have "s' = s\<lparr>workers := (workers s)[i := Sending r]\<rparr>"
      by (simp add: wstep_def)
    ultimately show ?thesis using b by (simp add: results_inv_def)
  next
    case (Sending r)
    with i have "Sending r \<in> set (workers s)" by (metis nth_mem)
    with w have er: "emitted_by proc r" by simp
    from Sending st have "s' = s
        \<or> s' = s\<lparr>results := (results s)\<lparr>buf := buf (results s) @ [r]\<rparr>,
                    workers := (workers s)[i := Idle]\<rparr>"
      by (auto simp: wstep_def chan_send_def split: if_splits)
    with inv b er sending_update [OF w, of Idle i] show ?thesis
      by (auto simp: results_inv_def)
  next
    case Hung
    with inv st show ?thesis by (simp add: wstep_def)
  next
    case Exited
    with inv st show ?thesis by (simp add: wstep_def)
  qed
qed

lemma run_loop_results_inv:
  "emits_named proc \<Longrightarrow> results_inv proc s \<Longrightarrow> run_loop proc sched s = RunReturned s' \<Longrightarrow>
     results_inv proc s'"
proof (induction proc sched s rule: run_loop.induct)
  case (1 proc sched s)
  let ?en = "filter (wenabled s) [0..<length (workers s)]"
  show ?case
  proof (cases "scheduled sched ?en")
    case None
    with "1.prems" show ?thesis
      by (simp add: run_loop.simps [of proc sched s] split: if_splits)
  next
    case (Some i)
    from Some have "i \<in> set ?en" by (rule scheduled_mem)
    then have i: "i < length (workers s)" by simp
    show ?thesis
    proof (cases "wstep proc i s")
      case (Inl p)
      with Some "1.prems" show ?thesis by (simp add: run_loop.simps [of proc sched s])
    next
      case (Inr s1)
      with Some "1.prems" have r: "run_loop proc (tl sched) s1 = RunReturned s'"
        by (simp add: run_loop.simps [of proc sched s])
      from "1.prems"(1,2) i Inr have "results_inv proc s1" by (rule wstep_results_inv)
      with "1.IH" [OF Some Inr "1.prems"(1)] r show ?thesis by simp
    qed
  qed
qed

lemma run_emitted_by:
  assumes "emits_named proc" and "buf (results s) = []"
    and "run proc sched n s = RunReturned s'"
  shows "\<forall>r \<in> set (buf (results s')). emitted_by proc r"
proof -
  let ?s = "s\<lparr>workers := replicate (nat n) Idle\<rparr>"
  from assms(2) have "results_inv proc ?s" by (simp add: results_inv_def)
  with assms(1) have "results_inv proc s'"
    using assms(3) unfolding run_def by (rule run_loop_results_inv)
  then show ?thesis by (simp add: results_inv_def)
qed

lemma main_results:
  assumes "1 \<le> workers_flag"
    and "always_emits (\<lambda>k name. process (worlds k) name (scheds k))"
  shows "\<exists>rs. main (Inr content) workers_flag worlds scheds sched = MainBlocked rs
           \<and> mset (map Name rs) = mset (Split content)
           \<and> (\<forall>r \<in> set rs. \<exists>k line. process (worlds k) (Name r) (scheds k) = Emitted r line)"
proof -
  let ?c = "\<lparr>buf = Split content, cap = length (Split content), closed = True\<rparr>"
  let ?s = "\<lparr>names = ?c, results = make_chan (length (Split content)), workers = [], taken = 0\<rparr>"
  let ?proc = "\<lambda>k name. process (worlds k) name (scheds k)"
  note named = process_emits_named [OF assms(2)]
  have "\<exists>s'. run ?proc sched workers_flag ?s = RunReturned s'
      \<and> \<not> closed (results s') \<and> length (buf (results s')) = length (buf (names ?s))
      \<and> mset (map Name (buf (results s'))) = mset (buf (names ?s))"
    using assms named by (intro run_returns) simp_all
  then obtain s' where run: "run ?proc sched workers_flag ?s = RunReturned s'"
    and op: "\<not> closed (results s')"
    and ms: "mset (map Name (buf (results s'))) = mset (Split content)"
    by auto
  have "\<forall>r \<in> set (buf (results s')). emitted_by ?proc r"
    using named _ run by (rule run_emitted_by) (simp add: make_chan_def)
  then have em: "\<forall>r \<in> set (buf (results s')).
      \<exists>k line. process (worlds k) (Name r) (scheds k) = Emitted r line"
    by (simp add: emitted_by_def)
  from op have "collect (results s') [] = Inl ([] @ buf (results s'))" by (rule collect_open)
  with run ms em show ?thesis by (simp add: main_def load_names_eq)
qed

section \<open>The claims\<close>

text \<open>
  C1, what the program does. With at least one worker, and no call of \<^verbatim>\<open>process\<close>
  panicking, \<^verbatim>\<open>run\<close> returns under every scheduler, and the loop of lines 192-194 reads
  as many results as the file has names, one for each name (a name that occurs twice has
  two). It does not end there: nothing closes \<^verbatim>\<open>t.results\<close>, so after the last result the
  receive blocks for ever and \<^verbatim>\<open>main\<close> never reaches line 195.
\<close>

theorem main_blocks_after_run:
  assumes "1 \<le> workers_flag"
    and "always_emits (\<lambda>k name. process (worlds k) name (scheds k))"
  shows "\<exists>rs. main (Inr content) workers_flag worlds scheds sched = MainBlocked rs
           \<and> length rs = length (Split content)
           \<and> mset (map Name rs) = mset (Split content)"
proof -
  let ?c = "\<lparr>buf = Split content, cap = length (Split content), closed = True\<rparr>"
  let ?s = "\<lparr>names = ?c, results = make_chan (length (Split content)), workers = [], taken = 0\<rparr>"
  let ?proc = "\<lambda>k name. process (worlds k) name (scheds k)"
  have "\<exists>s'. run ?proc sched workers_flag ?s = RunReturned s'
      \<and> \<not> closed (results s') \<and> length (buf (results s')) = length (buf (names ?s))
      \<and> mset (map Name (buf (results s'))) = mset (buf (names ?s))"
    using assms process_emits_named [OF assms(2)] by (intro run_returns) simp_all
  then obtain s' where run: "run ?proc sched workers_flag ?s = RunReturned s'"
    and op: "\<not> closed (results s')" and len: "length (buf (results s')) = length (Split content)"
    and ms: "mset (map Name (buf (results s'))) = mset (Split content)"
    by auto
  from op have "collect (results s') [] = Inl ([] @ buf (results s'))" by (rule collect_open)
  with run len ms show ?thesis by (simp add: main_def load_names_eq)
qed

text \<open>
  Witness for C1: a file of two names, two workers, every probe succeeding. Both
  results are read, and \<^verbatim>\<open>main\<close> blocks.
\<close>

theorem main_blocks_after_run_witness:
  "main (Inr [CHR ''a'', CHR 0x0A, CHR ''b'']) 2 (\<lambda>k. good_world) (\<lambda>k. [0, 0, 1, 1, 1, 1]) [1] =
     MainBlocked
       [\<lparr>Name = ''b'',
         Tor = Some \<lparr>LookupTook = 5, HTTPConnectionTook = 7, Error = [], Page = ''<html>'',
                     IP = ''192.0.2.7''\<rparr>,
         Plain = Some \<lparr>LookupTook = 5, HTTPConnectionTook = 7, Error = [], Page = [],
                       IP = ''192.0.2.7''\<rparr>\<rparr>,
        \<lparr>Name = ''a'',
         Tor = Some \<lparr>LookupTook = 5, HTTPConnectionTook = 7, Error = [], Page = ''<html>'',
                     IP = ''192.0.2.7''\<rparr>,
         Plain = Some \<lparr>LookupTook = 5, HTTPConnectionTook = 7, Error = [], Page = [],
                       IP = ''192.0.2.7''\<rparr>\<rparr>]
   \<and> length (Split [CHR ''a'', CHR 0x0A, CHR ''b'']) = 2"
proof -
  have w: "1 \<le> (2 :: int)" by simp
  have ev: "main (Inr [CHR ''a'', CHR 0x0A, CHR ''b'']) 2 (\<lambda>k. good_world) (\<lambda>k. [0, 0, 1, 1, 1, 1]) [1] =
     MainBlocked
       [\<lparr>Name = ''b'',
         Tor = Some \<lparr>LookupTook = 5, HTTPConnectionTook = 7, Error = [], Page = ''<html>'',
                     IP = ''192.0.2.7''\<rparr>,
         Plain = Some \<lparr>LookupTook = 5, HTTPConnectionTook = 7, Error = [], Page = [],
                       IP = ''192.0.2.7''\<rparr>\<rparr>,
        \<lparr>Name = ''a'',
         Tor = Some \<lparr>LookupTook = 5, HTTPConnectionTook = 7, Error = [], Page = ''<html>'',
                     IP = ''192.0.2.7''\<rparr>,
         Plain = Some \<lparr>LookupTook = 5, HTTPConnectionTook = 7, Error = [], Page = [],
                       IP = ''192.0.2.7''\<rparr>\<rparr>]"
    by code_simp
  from main_blocks_after_run [OF w good_world_always_emits,
      of "[CHR ''a'', CHR 0x0A, CHR ''b'']" "[1]"] ev
  show ?thesis by auto
qed

text \<open>
  C2, as stated, fails: a name that resolves while nothing listens at its address gives an
  outcome with both \<^verbatim>\<open>Error\<close> and \<^verbatim>\<open>IP\<close> set.
\<close>

theorem error_and_ip_counterexample:
  "Error (fst (processName refused_net ''example.com'' False)) = ''connection refused''
   \<and> IP (fst (processName refused_net ''example.com'' False)) = ''192.0.2.7''"
  by (simp add: probe_defs net_defs)

text \<open>
  C2, amended. When the texts of the errors are not empty: at the end of the resolution
  step (lines 68-92) exactly one of the two holds, the function has returned with
  \<^verbatim>\<open>Error\<close> set and \<^verbatim>\<open>IP\<close> empty, or it goes on with \<^verbatim>\<open>IP\<close> set and \<^verbatim>\<open>Error\<close> empty; the
  outcome returned keeps that \<^verbatim>\<open>IP\<close>; it never has both fields empty; and it has both
  fields set exactly when the resolution succeeded and a later step (building the
  request, the fetch, the body read) failed.
\<close>

theorem error_or_ip:
  assumes "errors_have_text env"
  shows "(case lookupStep ''Malformed DNS response'' env name of
            Inl r \<Rightarrow> Error r \<noteq> [] \<and> IP r = [] \<and> fst (processName env name g) = r
          | Inr r \<Rightarrow> Error r = [] \<and> IP r \<noteq> []
              \<and> IP (fst (processName env name g)) = IP r)
    \<and> \<not> (Error (fst (processName env name g)) = [] \<and> IP (fst (processName env name g)) = [])
    \<and> (Error (fst (processName env name g)) \<noteq> [] \<and> IP (fst (processName env name g)) \<noteq> []
         \<longleftrightarrow> (\<exists>ans. exchange env name = Inr ans \<and> firstA ans \<noteq> [])
              \<and> \<not> all_steps_ok env name g)"
proof -
  from assms have x: "exchange env name \<noteq> Inl []"
    by (simp add: errors_have_text_def)
  note e = error_empty_iff [OF assms, of name g]
  show ?thesis
  proof (cases env name rule: probe_cases)
    case (exchange_failed err)
    with x e show ?thesis
      by (auto simp: processName_def probe_exchange_failed lookupStep_def)
  next
    case (no_address ans)
    then show ?thesis
      by (cases "ans = []") (auto simp: probe_defs all_steps_ok_def)
  next
    case (request_failed ans err)
    with e show ?thesis
      by (auto simp: processName_def probe_request_failed lookupStep_def Let_def)
  next
    case (fetch_failed ans err)
    with e show ?thesis
      by (auto simp: processName_def probe_fetch_failed lookupStep_def Let_def)
  next
    case (fetched ans body rerr)
    with e show ?thesis
      by (cases g) (auto simp: processName_def probe_fetched probe_read lookupStep_def Let_def)
  qed
qed

text \<open>
  Witness for C2: a resolver that times out, a network on which every step succeeds, and
  a body read that fails.
\<close>

theorem error_or_ip_witness:
  "Error (fst (processName timeout_net ''example.com'' True)) = ''i/o timeout''
   \<and> IP (fst (processName timeout_net ''example.com'' True)) = []
   \<and> Error (fst (processName good_net ''example.com'' True)) = []
   \<and> IP (fst (processName good_net ''example.com'' True)) = ''192.0.2.7''
   \<and> Error (fst (processName broken_net ''example.com'' True)) = ''unexpected EOF''
   \<and> IP (fst (processName broken_net ''example.com'' True)) = ''192.0.2.7''"
  using error_or_ip [OF errors_have_text_nets(4), of "''example.com''" True]
    error_or_ip [OF errors_have_text_nets(1), of "''example.com''" True]
    error_or_ip [OF errors_have_text_nets(6), of "''example.com''" True]
  by (simp add: probe_defs net_defs all_steps_ok_def Let_def)

text \<open>
  C3, as stated, fails on the texts: the program writes \<^verbatim>\<open>No addresses found\<close> and
  \<^verbatim>\<open>Malformed DNS response\<close>, not the texts of the claim.
\<close>

theorem resolution_error_texts_counterexample:
  "exchange empty_net ''example.com'' = Inr []
   \<and> Error (fst (processName empty_net ''example.com'' False)) \<noteq> ''no addresses found''
   \<and> exchange other_net ''example.com'' = Inr [RR_Other, RR_Other]
   \<and> Error (fst (processName other_net ''example.com'' False)) \<noteq> ''malformed response''"
  by (simp add: probe_defs net_defs)

text \<open>
  C3, amended. For every probe whose exchange succeeds: with no answer the error is
  \<^verbatim>\<open>No addresses found\<close>; with answers none of which is an A record the error is
  \<^verbatim>\<open>Malformed DNS response\<close> (\<^verbatim>\<open>Malformed A records\<close> in the other source file); and when
  the answers hold an A record, \<^verbatim>\<open>IP\<close> is the address of the first of them.
\<close>

theorem resolution_outcome:
  "(exchange env name = Inr [] \<longrightarrow>
      Error (fst (processName env name grabPage)) = ''No addresses found''
      \<and> Error (fst (processName0 env name grabPage)) = ''No addresses found'')
   \<and> (exchange env name = Inr ans \<and> ans \<noteq> [] \<and> (\<forall>s. RR_A s \<notin> set ans) \<longrightarrow>
      Error (fst (processName env name grabPage)) = ''Malformed DNS response''
      \<and> Error (fst (processName0 env name grabPage)) = ''Malformed A records'')
   \<and> (exchange env name = Inr (pre @ RR_A s # post) \<and> set pre \<subseteq> {RR_Other} \<longrightarrow>
      IP (fst (processName env name grabPage)) = s
      \<and> IP (fst (processName0 env name grabPage)) = s)"
proof (intro conjI impI)
  assume "exchange env name = Inr []"
  then show "Error (fst (processName env name grabPage)) = ''No addresses found''"
    and "Error (fst (processName0 env name grabPage)) = ''No addresses found''"
    by (simp_all add: probe_defs)
next
  assume a: "exchange env name = Inr ans \<and> ans \<noteq> [] \<and> (\<forall>s. RR_A s \<notin> set ans)"
  then have "firstA ans = []" by (simp add: firstA_none)
  with a show "Error (fst (processName env name grabPage)) = ''Malformed DNS response''"
    and "Error (fst (processName0 env name grabPage)) = ''Malformed A records''"
    by (simp_all add: probe_defs)
next
  assume a: "exchange env name = Inr (pre @ RR_A s # post) \<and> set pre \<subseteq> {RR_Other}"
  then have f: "firstA (pre @ RR_A s # post) = s" by (simp add: firstA_skip)
  with a show "IP (fst (processName env name grabPage)) = s"
    and "IP (fst (processName0 env name grabPage)) = s"
    by (auto simp: probe_defs Let_def split: option.splits sum.splits prod.splits)
qed

text \<open>
  Witness for C3: an empty answer section, one without an A record, and one whose
  first A record is its second entry.
\<close>

theorem resolution_outcome_witness:
  "Error (fst (processName empty_net ''example.com'' True)) = ''No addresses found''
   \<and> Error (fst (processName other_net ''example.com'' True)) = ''Malformed DNS response''
   \<and> Error (fst (processName0 other_net ''example.com'' True)) = ''Malformed A records''
   \<and> IP (fst (processName good_net ''example.com'' True)) = ''192.0.2.7''"
proof -
  have e: "exchange empty_net ''example.com'' = Inr []"
    by (simp add: net_defs)
  have o: "exchange other_net ''example.com'' = Inr [RR_Other, RR_Other]
      \<and> [RR_Other, RR_Other] \<noteq> [] \<and> (\<forall>s. RR_A s \<notin> set [RR_Other, RR_Other])"
    by (simp add: net_defs)
  have g: "exchange good_net ''example.com'' = Inr ([RR_Other] @ RR_A ''192.0.2.7'' # [RR_A ''192.0.2.8''])
      \<and> set [RR_Other] \<subseteq> {RR_Other}"
    by (simp add: net_defs)
  show ?thesis
    using resolution_outcome [of empty_net "''example.com''" True "[]" "[]" "[]" "[]", THEN conjunct1, rule_format, OF e]
      resolution_outcome [of other_net "''example.com''" True "[RR_Other, RR_Other]" "[]" "[]" "[]",
        THEN conjunct2, THEN conjunct1, rule_format, OF o]
      resolution_outcome [of good_net "''example.com''" True "[]" "[RR_Other]" "''192.0.2.7''" "[RR_A ''192.0.2.8'']",
        THEN conjunct2, THEN conjunct2, rule_format, OF g]
    by simp
qed




text \<open>
  C5. For every name and every combination of failures the probe returns an outcome with
  its lookup time set; the first step that fails sets \<^verbatim>\<open>Error\<close> to its text and is the last
  call the probe makes (a failed exchange or an answer without address: no request; a
  request that cannot be built: no fetch; a failed fetch: no read), while a probe whose
  fetch succeeds makes every call; and, where the texts of the errors are not empty,
  \<^verbatim>\<open>Error\<close> is empty exactly when no step failed.
\<close>

theorem probe_short_circuits:
  "LookupTook (fst (processName env name g)) = lookup_took env
    \<and> (errors_have_text env \<longrightarrow>
          (Error (fst (processName env name g)) = [] \<longleftrightarrow> all_steps_ok env name g))
    \<and> (\<forall>err. exchange env name = Inl err \<longrightarrow>
          Error (fst (processName env name g)) = err
          \<and> snd (processName env name g) = [Exchange name])
    \<and> (\<forall>ans. exchange env name = Inr ans \<and> firstA ans = [] \<longrightarrow>
          Error (fst (processName env name g)) \<in> {''No addresses found'', ''Malformed DNS response''}
          \<and> snd (processName env name g) = [Exchange name])
    \<and> (\<forall>ans err. exchange env name = Inr ans \<and> firstA ans \<noteq> []
          \<and> new_request env (''http://'' @ firstA ans @ ''/'') = Some err \<longrightarrow>
          Error (fst (processName env name g)) = err
          \<and> snd (processName env name g) =
              [Exchange name, NewRequest (''http://'' @ firstA ans @ ''/'')])
    \<and> (\<forall>ans err. exchange env name = Inr ans \<and> firstA ans \<noteq> []
          \<and> new_request env (''http://'' @ firstA ans @ ''/'') = None
          \<and> client_do env (''http://'' @ firstA ans @ ''/'') name = Inl err \<longrightarrow>
          Error (fst (processName env name g)) = err
          \<and> snd (processName env name g) =
              [Exchange name, NewRequest (''http://'' @ firstA ans @ ''/''),
               Do (''http://'' @ firstA ans @ ''/'') name])
    \<and> (\<forall>ans body rerr. exchange env name = Inr ans \<and> firstA ans \<noteq> []
          \<and> new_request env (''http://'' @ firstA ans @ ''/'') = None
          \<and> client_do env (''http://'' @ firstA ans @ ''/'') name = Inr (body, rerr) \<longrightarrow>
          snd (processName env name g) =
              [Exchange name, NewRequest (''http://'' @ firstA ans @ ''/''),
               Do (''http://'' @ firstA ans @ ''/'') name]
              @ (if g then [ReadAll, CloseBody] else [CloseBody]))"
proof (intro conjI allI impI)
  show "LookupTook (fst (processName env name g)) = lookup_took env"
  proof (cases env name rule: probe_cases)
    case (no_address ans)
    with probe_no_address [OF no_address, of "''Malformed DNS response''" g] show ?thesis
      by (auto simp: processName_def)
  next
    case (fetched ans body rerr)
    then show ?thesis
      by (cases g) (simp_all add: processName_def probe_fetched probe_read)
  qed (simp_all add: processName_def probe_exchange_failed probe_request_failed
        probe_fetch_failed)
next
  assume "errors_have_text env"
  then show "(Error (fst (processName env name g)) = []) = all_steps_ok env name g"
    by (rule error_empty_iff)
next
  fix ans body rerr
  assume "exchange env name = Inr ans \<and> firstA ans \<noteq> []
      \<and> new_request env (''http://'' @ firstA ans @ ''/'') = None
      \<and> client_do env (''http://'' @ firstA ans @ ''/'') name = Inr (body, rerr)"
  then show "snd (processName env name g) =
      [Exchange name, NewRequest (''http://'' @ firstA ans @ ''/''),
       Do (''http://'' @ firstA ans @ ''/'') name]
      @ (if g then [ReadAll, CloseBody] else [CloseBody])"
    by (cases g) (simp_all add: processName_def probe_fetched probe_read)
next
  fix err
  assume "exchange env name = Inl err"
  then show "Error (fst (processName env name g)) = err"
    and "snd (processName env name g) = [Exchange name]"
    by (simp_all add: processName_def probe_exchange_failed)
next
  fix ans
  assume a: "exchange env name = Inr ans \<and> firstA ans = []"
  then have "exchange env name = Inr ans" and "firstA ans = []" by simp_all
  from probe_no_address [OF this, of "''Malformed DNS response''" g]
  show "Error (fst (processName env name g)) \<in> {''No addresses found'', ''Malformed DNS response''}"
    and "snd (processName env name g) = [Exchange name]"
    by (auto simp: processName_def)
next
  fix ans err
  assume "exchange env name = Inr ans \<and> firstA ans \<noteq> []
      \<and> new_request env (''http://'' @ firstA ans @ ''/'') = Some err"
  then show "Error (fst (processName env name g)) = err"
    and "snd (processName env name g) =
      [Exchange name, NewRequest (''http://'' @ firstA ans @ ''/'')]"
    by (simp_all add: processName_def probe_request_failed)
next
  fix ans err
  assume "exchange env name = Inr ans \<and> firstA ans \<noteq> []
      \<and> new_request env (''http://'' @ firstA ans @ ''/'') = None
      \<and> client_do env (''http://'' @ firstA ans @ ''/'') name = Inl err"
  then show "Error (fst (processName env name g)) = err"
    and "snd (processName env name g) =
      [Exchange name, NewRequest (''http://'' @ firstA ans @ ''/''),
       Do (''http://'' @ firstA ans @ ''/'') name]"
    by (simp_all add: processName_def probe_fetch_failed)
qed

text \<open>
  Witness for C5: a failed exchange, a failed fetch, and a probe on which every step
  succeeds.
\<close>

theorem probe_short_circuits_witness:
  "processName timeout_net ''example.com'' True =
     (\<lparr>LookupTook = 5, HTTPConnectionTook = 0, Error = ''i/o timeout'', Page = [], IP = []\<rparr>,
      [Exchange ''example.com''])
   \<and> processName refused_net ''example.com'' True =
     (\<lparr>LookupTook = 5, HTTPConnectionTook = 7, Error = ''connection refused'', Page = [],
       IP = ''192.0.2.7''\<rparr>,
      [Exchange ''example.com'', NewRequest ''http://192.0.2.7/'',
       Do ''http://192.0.2.7/'' ''example.com''])
   \<and> all_steps_ok good_net ''example.com'' True
   \<and> Error (fst (processName good_net ''example.com'' True)) = []"
  using probe_short_circuits [of timeout_net "''example.com''" True]
    probe_short_circuits [of refused_net "''example.com''" True]
    probe_short_circuits [of good_net "''example.com''" True]
    errors_have_text_nets
  by (simp add: probe_defs net_defs all_steps_ok_def)

text \<open>
  C6. A probe that is not asked for the page leaves \<^verbatim>\<open>Page\<close> empty, so \<^verbatim>\<open>Page\<close> is set only
  when the page was asked for; a probe that is asked for it and whose fetch succeeds
  sets \<^verbatim>\<open>Page\<close> to the body read; and in every result the coordinator sends, the plain
  outcome (when set) has an empty \<^verbatim>\<open>Page\<close> and the tor outcome is that of a probe asked
  for the page.
\<close>

theorem page_only_when_requested:
  "Page (fst (processName env name False)) = []
   \<and> (Page (fst (processName env name g)) \<noteq> [] \<longrightarrow> g)
   \<and> (\<forall>ans body rerr. exchange env name = Inr ans \<and> firstA ans \<noteq> []
         \<and> new_request env (''http://'' @ firstA ans @ ''/'') = None
         \<and> client_do env (''http://'' @ firstA ans @ ''/'') name = Inr (body, rerr) \<longrightarrow>
         Page (fst (processName env name True)) = body)
   \<and> (\<forall>r line. process w name sched = Emitted r line \<longrightarrow>
         (\<forall>p. Plain r = Some p \<longrightarrow> Page p = [])
         \<and> (\<exists>d. newDialer w = Inr d
               \<and> Tor r = Some (fst (processName (tor_net w d) name True))))"
proof -
  have plain: "Page (fst (processName e n False)) = []" for e n
  proof (cases e n rule: probe_cases)
    case (no_address ans)
    with probe_no_address [OF no_address, of "''Malformed DNS response''" False] show ?thesis
      by (auto simp: processName_def)
  qed (simp_all add: processName_def probe_exchange_failed probe_request_failed
        probe_fetch_failed probe_fetched)
  have only: "Page (fst (processName env name g)) \<noteq> [] \<longrightarrow> g"
    using plain [of env name] by (cases g) simp_all
  have fetched: "\<forall>ans body rerr. exchange env name = Inr ans \<and> firstA ans \<noteq> []
         \<and> new_request env (''http://'' @ firstA ans @ ''/'') = None
         \<and> client_do env (''http://'' @ firstA ans @ ''/'') name = Inr (body, rerr) \<longrightarrow>
         Page (fst (processName env name True)) = body"
    by (simp add: processName_def probe_read)
  have proc: "\<forall>r line. process w name sched = Emitted r line \<longrightarrow>
         (\<forall>p. Plain r = Some p \<longrightarrow> Page p = [])
         \<and> (\<exists>d. newDialer w = Inr d
               \<and> Tor r = Some (fst (processName (tor_net w d) name True)))"
  proof (intro allI impI conjI)
    fix r line p
    assume e: "process w name sched = Emitted r line" and p: "Plain r = Some p"
    from process_emitted(3) [OF e] p plain [of "plain_net w" name] show "Page p = []" by auto
  next
    fix r line
    assume "process w name sched = Emitted r line"
    then show "\<exists>d. newDialer w = Inr d \<and> Tor r = Some (fst (processName (tor_net w d) name True))"
      by (rule process_emitted(2))
  qed
  from plain [of env name] only fetched proc show ?thesis by blast
qed

text \<open>
  Witness for C6: the same network probed without and with the page, and a call of the
  coordinator.
\<close>

theorem page_only_when_requested_witness:
  "Page (fst (processName good_net ''example.com'' False)) = []
   \<and> Page (fst (processName good_net ''example.com'' True)) = ''<html>''
   \<and> process good_world ''example.com'' [0, 0, 1, 1, 1, 1] =
       Emitted \<lparr>Name = ''example.com'',
         Tor = Some \<lparr>LookupTook = 5, HTTPConnectionTook = 7, Error = [], Page = ''<html>'',
                     IP = ''192.0.2.7''\<rparr>,
         Plain = Some \<lparr>LookupTook = 5, HTTPConnectionTook = 7, Error = [], Page = [],
                       IP = ''192.0.2.7''\<rparr>\<rparr> '':)''"
  using page_only_when_requested [of good_net "''example.com''" True good_world "[0, 0, 1, 1, 1, 1]"]
    good_world_emits [of "''example.com''"]
  by (simp add: probe_defs net_defs)

text \<open>
  C7, what the program does. The deferred \<^verbatim>\<open>wg.Done()\<close> of \<^verbatim>\<open>processName\<close> runs before the
  closure assigns the value returned to \<^verbatim>\<open>r.Plain\<close> or \<^verbatim>\<open>r.Tor\<close>, so \<^verbatim>\<open>wg.Wait()\<close> can
  return while a field is still nil. Under the first scheduler below both probes return,
  the tor closure assigns, and the coordinator sends a result whose \<^verbatim>\<open>Plain\<close> is nil; under
  the second the coordinator reads \<^verbatim>\<open>r.Tor.Error\<close> before the tor closure has assigned,
  and the program panics.
\<close>

theorem coordinator_emits_nil_outcome:
  "process good_world ''example.com'' [0, 0, 0, 1, 2, 0, 0, 0] =
     Emitted \<lparr>Name = ''example.com'',
        Tor = Some \<lparr>LookupTook = 5, HTTPConnectionTook = 7, Error = [], Page = ''<html>'',
                    IP = ''192.0.2.7''\<rparr>,
        Plain = None\<rparr> '':)''
   \<and> process good_world ''example.com'' [0, 0, 0, 1, 0, 0] =
     Panicked (Panic ''invalid memory address or nil pointer dereference'')"
  by (simp add: process_def pstate0_def process_from.simps scheduled_def coordinator_def plainProbe_def
        torProbe_def wgDone_def gstep_def good_world_def newDialer_def randomString_def
        probe_defs net_defs)



text \<open>
  C9. When the page is to be read, the fetch has succeeded and the read of the body fails,
  \<^verbatim>\<open>Error\<close> is the text of the read error, and \<^verbatim>\<open>LookupTook\<close>, \<^verbatim>\<open>HTTPConnectionTook\<close> and
  \<^verbatim>\<open>IP\<close> are what they were before the read: the values of the same probe without the
  read.
\<close>

theorem read_failure_keeps_fields:
  assumes "exchange env name = Inr ans" and "firstA ans \<noteq> []"
    and "new_request env (''http://'' @ firstA ans @ ''/'') = None"
    and "client_do env (''http://'' @ firstA ans @ ''/'') name = Inr (body, Some err)"
  shows "fst (processName env name True) =
           \<lparr>LookupTook = lookup_took env, HTTPConnectionTook = http_took env,
            Error = err, Page = body, IP = firstA ans\<rparr>
    \<and> LookupTook (fst (processName env name True)) = LookupTook (fst (processName env name False))
    \<and> HTTPConnectionTook (fst (processName env name True))
        = HTTPConnectionTook (fst (processName env name False))
    \<and> IP (fst (processName env name True)) = IP (fst (processName env name False))"
  using assms by (simp add: processName_def probe_read probe_fetched)

text \<open>
  Witness for C9: the body read fails after five bytes.
\<close>

theorem read_failure_keeps_fields_witness:
  "fst (processName broken_net ''example.com'' True) =
     \<lparr>LookupTook = 5, HTTPConnectionTook = 7, Error = ''unexpected EOF'', Page = ''<html'',
      IP = ''192.0.2.7''\<rparr>
   \<and> fst (processName broken_net ''example.com'' False) =
     \<lparr>LookupTook = 5, HTTPConnectionTook = 7, Error = [], Page = [], IP = ''192.0.2.7''\<rparr>"
proof -
  have a: "exchange broken_net ''example.com'' = Inr [RR_Other, RR_A ''192.0.2.7'', RR_A ''192.0.2.8'']"
    by (simp add: net_defs)
  have b: "firstA [RR_Other, RR_A ''192.0.2.7'', RR_A ''192.0.2.8''] \<noteq> []" by simp
  have c: "new_request broken_net
      (''http://'' @ firstA [RR_Other, RR_A ''192.0.2.7'', RR_A ''192.0.2.8''] @ ''/'') = None"
    by (simp add: net_defs)
  have d: "client_do broken_net
      (''http://'' @ firstA [RR_Other, RR_A ''192.0.2.7'', RR_A ''192.0.2.8''] @ ''/'') ''example.com''
      = Inr (''<html'', Some ''unexpected EOF'')"
    by (simp add: net_defs)
  show ?thesis
    using read_failure_keeps_fields [OF a b c d]
    by (simp add: probe_defs net_defs)
qed

text \<open>
  C10. The names channel holds the pieces of the file between its newlines, all of them
  and in order: one more piece than the file has newlines, nothing trimmed (joining the
  pieces with newlines gives the file back), an empty piece after a trailing newline. An
  idle worker takes the next name whatever it is, the empty name included, and then calls
  \<^verbatim>\<open>process\<close> on it. So in a run with at least one worker in which no call of \<^verbatim>\<open>process\<close>
  panics, the results read are one for each piece of the file, empty pieces included,
  each of them what the call of \<^verbatim>\<open>process\<close> for its name has sent.
\<close>

theorem names_split_on_newline:
  "load_names content =
     Inr \<lparr>buf = Split content, cap = length (Split content), closed = True\<rparr>
   \<and> length (Split content) = count_list content (CHR 0x0A) + 1
   \<and> join (Split content) = content
   \<and> Split (content @ [CHR 0x0A]) = Split content @ [[]]
   \<and> (\<forall>name rest. i < length (workers s) \<and> workers s ! i = Idle
         \<and> buf (names s) = name # rest \<longrightarrow>
         wstep proc i s =
           Inr (s\<lparr>names := (names s)\<lparr>buf := rest\<rparr>,
                  workers := (workers s)[i := Busy (taken s) name],
                  taken := taken s + 1\<rparr>))
   \<and> (\<forall>k name. workers s ! i = Busy k name \<longrightarrow>
         wstep proc i s =
           (case proc k name of
              Panicked p \<Rightarrow> Inl p
            | Emitted r line \<Rightarrow> Inr (s\<lparr>workers := (workers s)[i := Sending r]\<rparr>)
            | Deadlocked \<Rightarrow> Inr (s\<lparr>workers := (workers s)[i := Hung]\<rparr>)))
   \<and> (1 \<le> workers_flag \<and> always_emits (\<lambda>k name. process (worlds k) name (scheds k)) \<longrightarrow>
         (\<exists>rs. main (Inr content) workers_flag worlds scheds sched = MainBlocked rs
            \<and> mset (map Name rs) = mset (Split content)
            \<and> (\<forall>r \<in> set rs.
                  \<exists>k line. process (worlds k) (Name r) (scheds k) = Emitted r line)))"
proof -
  have run: "1 \<le> workers_flag \<and> always_emits (\<lambda>k name. process (worlds k) name (scheds k)) \<longrightarrow>
         (\<exists>rs. main (Inr content) workers_flag worlds scheds sched = MainBlocked rs
            \<and> mset (map Name rs) = mset (Split content)
            \<and> (\<forall>r \<in> set rs.
                  \<exists>k line. process (worlds k) (Name r) (scheds k) = Emitted r line))"
    using main_results [of workers_flag worlds scheds content sched] by blast
  have busy: "\<forall>k name. workers s ! i = Busy k name \<longrightarrow>
         wstep proc i s =
           (case proc k name of
              Panicked p \<Rightarrow> Inl p
            | Emitted r line \<Rightarrow> Inr (s\<lparr>workers := (workers s)[i := Sending r]\<rparr>)
            | Deadlocked \<Rightarrow> Inr (s\<lparr>workers := (workers s)[i := Hung]\<rparr>))"
    by (simp add: wstep_def)
  have rest: "load_names content =
     Inr \<lparr>buf = Split content, cap = length (Split content), closed = True\<rparr>
   \<and> length (Split content) = count_list content (CHR 0x0A) + 1
   \<and> join (Split content) = content
   \<and> Split (content @ [CHR 0x0A]) = Split content @ [[]]
   \<and> (\<forall>name rest. i < length (workers s) \<and> workers s ! i = Idle
         \<and> buf (names s) = name # rest \<longrightarrow>
         wstep proc i s =
           Inr (s\<lparr>names := (names s)\<lparr>buf := rest\<rparr>,
                  workers := (workers s)[i := Busy (taken s) name],
                  taken := taken s + 1\<rparr>))"
    by (simp add: load_names_eq Split_def length_scanNL join_scanNL scanNL_trailing
        wstep_def chan_recv_def)
  from rest busy run show ?thesis by (intro conjI) blast+
qed

text \<open>
  Witness for C10: a file with an empty line and a trailing newline; a worker taking the
  empty name and probing it; and the run of two workers on that file, with two results
  for the empty name.
\<close>

theorem names_split_on_newline_witness:
  "load_names [CHR ''a'', CHR 0x0A, CHR 0x0A, CHR ''b'', CHR 0x0A] =
     Inr \<lparr>buf = [''a'', [], ''b'', []], cap = 4, closed = True\<rparr>
   \<and> wstep (\<lambda>k name. process good_world name [0, 0, 1, 1, 1, 1]) 0
        \<lparr>names = \<lparr>buf = [[], ''b'', []], cap = 4, closed = True\<rparr>,
         results = make_chan 4, workers = [Idle], taken = 1\<rparr>
      = Inr \<lparr>names = \<lparr>buf = [''b'', []], cap = 4, closed = True\<rparr>,
         results = make_chan 4, workers = [Busy 1 []], taken = 2\<rparr>
   \<and> wstep (\<lambda>k name. process good_world name [0, 0, 1, 1, 1, 1]) 0
        \<lparr>names = \<lparr>buf = [''b'', []], cap = 4, closed = True\<rparr>,
         results = make_chan 4, workers = [Busy 1 []], taken = 2\<rparr>
      = Inr \<lparr>names = \<lparr>buf = [''b'', []], cap = 4, closed = True\<rparr>,
         results = make_chan 4,
         workers = [Sending (good_result [])], taken = 2\<rparr>
   \<and> main (Inr [CHR ''a'', CHR 0x0A, CHR 0x0A, CHR ''b'', CHR 0x0A]) 2
        (\<lambda>k. good_world) (\<lambda>k. [0, 0, 1, 1, 1, 1]) [1]
      = MainBlocked [good_result [], good_result ''b'', good_result [], good_result ''a'']"
proof -
  let ?proc = "\<lambda>k name. process good_world name [0, 0, 1, 1, 1, 1]"
  let ?content = "[CHR ''a'', CHR 0x0A, CHR 0x0A, CHR ''b'', CHR 0x0A]"
  let ?idle = "\<lparr>names = \<lparr>buf = [[], ''b'', []], cap = 4, closed = True\<rparr>,
         results = make_chan 4, workers = [Idle], taken = 1\<rparr>"
  let ?busy = "\<lparr>names = \<lparr>buf = [''b'', []], cap = 4, closed = True\<rparr>,
         results = make_chan 4, workers = [Busy 1 []], taken = 2\<rparr>"
  let ?r = "good_result []"
  have sp: "Split ?content = [''a'', [], ''b'', []]" by (simp add: Split_def)
  have em: "process good_world [] [0, 0, 1, 1, 1, 1] = Emitted ?r '':)''"
    unfolding good_result_def by (rule good_world_emits)
  have ev: "main (Inr ?content) 2 (\<lambda>k. good_world) (\<lambda>k. [0, 0, 1, 1, 1, 1]) [1]
      = MainBlocked [good_result [], good_result ''b'', good_result [], good_result ''a'']"
    by code_simp
  note t1 = names_split_on_newline [of ?content 0 ?idle ?proc 2 "\<lambda>k. good_world"
      "\<lambda>k. [0, 0, 1, 1, 1, 1]" "[1]"]
  note t2 = names_split_on_newline [of ?content 0 ?busy ?proc 2 "\<lambda>k. good_world"
      "\<lambda>k. [0, 0, 1, 1, 1, 1]" "[1]"]
  from t1 have a: "load_names ?content = Inr \<lparr>buf = [''a'', [], ''b'', []], cap = 4, closed = True\<rparr>"
    by (simp add: sp)
  from t1 have b: "wstep ?proc 0 ?idle
      = Inr \<lparr>names = \<lparr>buf = [''b'', []], cap = 4, closed = True\<rparr>,
         results = make_chan 4, workers = [Busy 1 []], taken = 2\<rparr>"
    by simp
  from t2 have "wstep ?proc 0 ?busy =
      (case ?proc 1 [] of
         Panicked p \<Rightarrow> Inl p
       | Emitted r line \<Rightarrow> Inr (?busy\<lparr>workers := (workers ?busy)[0 := Sending r]\<rparr>)
       | Deadlocked \<Rightarrow> Inr (?busy\<lparr>workers := (workers ?busy)[0 := Hung]\<rparr>))"
    by simp
  with em have c: "wstep ?proc 0 ?busy = Inr (?busy\<lparr>workers := [Sending ?r]\<rparr>)"
    by simp
  from a b c ev show ?thesis by simp
qed

end
